theory Spec2Isabelle
  imports Main "HOL-Library.AList" "HOL-Library.Char_ord" "HOL-Library.List_Lexorder"
begin

section \<open>The policy attachment editor of Policies.tsx\<close>

text \<open>
  The component keeps the list of the API's operations in its state \<open>apiOperations\<close>.
  Every handler deep-clones that list, edits the clone and stores it back, so a handler is
  a function from the old list to the new one. A handler that dereferences \<open>undefined\<close>
  throws a TypeError before the state is stored; that is the \<open>Inl\<close> result here.
\<close>

subsection \<open>Data\<close>

datatype error = TypeError

text \<open>
  An attached policy (\<open>ApiPolicy\<close>). The handlers read and write \<open>policyId\<close>,
  \<open>parameters\<close> and \<open>uuid\<close>; \<open>others\<close> stands for every further own property of the
  object, which the spread \<open>{ ...updatedOperation, uuid }\<close> copies along. \<open>uuid\<close> is an
  optional property.
\<close>

record ApiPolicy =
  policyId :: string
  parameters :: "(string \<times> string) list"
  uuid :: "string option"
  others :: "(string \<times> string) list"

text \<open>
  \<open>operation.operationPolicies\<close> is an object keyed by the flow name, or absent. The
  object is the list of its own properties in their order; a property access reads the
  first binding of the key, an assignment replaces it in place.
\<close>

type_synonym OperationPolicies = "(string \<times> ApiPolicy list) list"

record Operation =
  target :: string
  verb :: string
  operationPolicies :: "OperationPolicies option"

subsection \<open>JavaScript library functions\<close>

text \<open>\<open>String.prototype.toLowerCase\<close>, on the ASCII letters.\<close>

definition toLowerCaseChar :: "char \<Rightarrow> char" where
  "toLowerCaseChar c =
     (case map_of (zip ''ABCDEFGHIJKLMNOPQRSTUVWXYZ'' ''abcdefghijklmnopqrstuvwxyz'') c of
        Some l \<Rightarrow> l
      | None \<Rightarrow> c)"

definition toLowerCase :: "string \<Rightarrow> string" where
  "toLowerCase s = map toLowerCaseChar s"

text \<open>
  The position of the element \<open>Array.prototype.find\<close> returns: the first one that
  satisfies the predicate, \<open>None\<close> where \<open>find\<close> returns \<open>undefined\<close>.
\<close>

fun find_at :: "('a \<Rightarrow> bool) \<Rightarrow> 'a list \<Rightarrow> nat option" where
  "find_at P [] = None"
| "find_at P (x # xs) = (if P x then Some 0 else map_option Suc (find_at P xs))"

text \<open>\<open>Array.prototype.indexOf\<close>: the first position of the value, or \<open>-1\<close>.\<close>

definition indexOf :: "'a \<Rightarrow> 'a list \<Rightarrow> int" where
  "indexOf x xs = (case find_at (\<lambda>y. y = x) xs of None \<Rightarrow> - 1 | Some i \<Rightarrow> int i)"

text \<open>
  \<open>Array.prototype.splice(start, deleteCount)\<close>, the array it leaves behind. A negative
  \<open>start\<close> counts from the end of the array (and is clamped at 0), a \<open>start\<close> beyond
  the end is the end.
\<close>

definition splice_arr :: "int \<Rightarrow> nat \<Rightarrow> 'a list \<Rightarrow> 'a list" where
  "splice_arr start deleteCount xs =
     (let len = int (length xs);
          s = nat (if start < 0 then max (len + start) 0 else min start len)
      in take s xs @ drop (s + deleteCount) xs)"

text \<open>JavaScript truthiness of an optional string: absent and the empty string are falsy.\<close>

definition truthy :: "string option \<Rightarrow> bool" where
  "truthy u = (case u of None \<Rightarrow> False | Some s \<Rightarrow> s \<noteq> [])"

subsection \<open>Helpers imported by the component\<close>

text \<open>
  Modelled from the spec: \<open>uuidv4\<close> is imported from \<open>./Utils\<close>, which is not among the
  sources. Section 4.1 of the specification gives its contract: \<open>next()\<close> returns a value
  unique among all identifiers generated during the process lifetime, for example a
  monotonic counter. The generator is the sequence \<open>ids\<close> of the identifiers it hands
  out together with the number \<open>n\<close> of identifiers handed out so far; uniqueness is
  injectivity of \<open>ids\<close>, assumed where a property depends on it.
\<close>

definition uuidv4 :: "(nat \<Rightarrow> string) \<Rightarrow> nat \<Rightarrow> string \<times> nat" where
  "uuidv4 ids n = (ids n, Suc n)"

text \<open>
  Modelled from the spec: \<open>arrayMove\<close> is imported from the package
  \<open>@dnd-kit/sortable\<close>, which is not among the sources. Section 4.4 of the specification
  describes the reorder: remove the element at \<open>oldIndex\<close> and reinsert it at
  \<open>newIndex\<close> within the same list, shifting intervening elements; section 7 treats an
  absent index as a no-op.
\<close>

definition arrayMove :: "'a list \<Rightarrow> nat \<Rightarrow> nat \<Rightarrow> 'a list" where
  "arrayMove array oldIndex newIndex =
     (if oldIndex < length array \<and> newIndex < length array
      then (let removed = take oldIndex array @ drop (Suc oldIndex) array
            in take newIndex removed @ array ! oldIndex # drop newIndex removed)
      else array)"

subsection \<open>Locating the operation and its flow\<close>

text \<open>
  The predicate the handlers pass to \<open>newApiOperations.find\<close>. \<open>updateApiOperations\<close>
  chooses by \<open>isChoreoConnectEnabled\<close>; the other handlers always use the second form.
\<close>

definition matchesOperation :: "bool \<Rightarrow> string \<Rightarrow> string \<Rightarrow> Operation \<Rightarrow> bool" where
  "matchesOperation isChoreoConnectEnabled t v op =
     (if isChoreoConnectEnabled then target op = t
      else target op = t \<and> toLowerCase (verb op) = toLowerCase v)"

definition operationInAction ::
  "bool \<Rightarrow> Operation list \<Rightarrow> string \<Rightarrow> string \<Rightarrow> nat option" where
  "operationInAction isChoreoConnectEnabled ops t v =
     find_at (matchesOperation isChoreoConnectEnabled t v) ops"

text \<open>
  \<open>operationInAction.operationPolicies[currentFlow]\<close> followed by a method call on the
  array: a TypeError when \<open>operationPolicies\<close> or the flow's array is missing.
\<close>

definition flowPolicies :: "Operation \<Rightarrow> string \<Rightarrow> error + ApiPolicy list" where
  "flowPolicies op currentFlow =
     (case operationPolicies op of
        None \<Rightarrow> Inl TypeError
      | Some pols \<Rightarrow>
          (case map_of pols currentFlow of
             None \<Rightarrow> Inl TypeError
           | Some l \<Rightarrow> Inr l))"

text \<open>The operation after its flow's array has been changed to \<open>l\<close>.\<close>

definition setFlowPolicies :: "Operation \<Rightarrow> string \<Rightarrow> ApiPolicy list \<Rightarrow> Operation" where
  "setFlowPolicies op currentFlow l =
     op\<lparr>operationPolicies :=
          (case operationPolicies op of
             None \<Rightarrow> None
           | Some pols \<Rightarrow> Some (AList.update currentFlow l pols))\<rparr>"

subsection \<open>getInitState\<close>

text \<open>
  \<open>getInitState\<close> clones the API's operations and, for every operation that has
  \<open>operationPolicies\<close>, for every flow and every policy of the flow in order, sets
  \<open>policyItem.uuid = uuidv4()\<close>. The result is the initial state and the generator's
  count.
\<close>

fun assignUuids :: "(nat \<Rightarrow> string) \<Rightarrow> ApiPolicy list \<Rightarrow> nat \<Rightarrow> ApiPolicy list \<times> nat" where
  "assignUuids ids [] n = ([], n)"
| "assignUuids ids (policyItem # rest) n =
     (let (u, n') = uuidv4 ids n;
          (rest', n'') = assignUuids ids rest n'
      in (policyItem\<lparr>uuid := Some u\<rparr> # rest', n''))"

fun assignFlows :: "(nat \<Rightarrow> string) \<Rightarrow> OperationPolicies \<Rightarrow> nat \<Rightarrow> OperationPolicies \<times> nat" where
  "assignFlows ids [] n = ([], n)"
| "assignFlows ids ((flow, policyArray) # rest) n =
     (let (policyArray', n') = assignUuids ids policyArray n;
          (rest', n'') = assignFlows ids rest n'
      in ((flow, policyArray') # rest', n''))"

fun getInitState :: "(nat \<Rightarrow> string) \<Rightarrow> Operation list \<Rightarrow> nat \<Rightarrow> Operation list \<times> nat" where
  "getInitState ids [] n = ([], n)"
| "getInitState ids (operation # rest) n =
     (case operationPolicies operation of
        None \<Rightarrow>
          (let (rest', n') = getInitState ids rest n
           in (operation # rest', n'))
      | Some pols \<Rightarrow>
          (let (pols', n') = assignFlows ids pols n;
               (rest', n'') = getInitState ids rest n'
           in (operation\<lparr>operationPolicies := Some pols'\<rparr> # rest', n'')))"

subsection \<open>The handlers\<close>

text \<open>
  \<open>updateApiOperations\<close>: edit the attached policy with the incoming \<open>policyId\<close> and
  \<open>uuid\<close>, or add the incoming policy under a new uuid. The result is the new state (or
  the error) and the generator's count.
\<close>

definition samePolicy :: "ApiPolicy \<Rightarrow> ApiPolicy \<Rightarrow> bool" where
  "samePolicy updatedOperation p =
     (policyId p = policyId updatedOperation \<and> uuid p = uuid updatedOperation)"

definition updateApiOperations ::
  "(nat \<Rightarrow> string) \<Rightarrow> bool \<Rightarrow> Operation list \<Rightarrow> nat \<Rightarrow> ApiPolicy \<Rightarrow> string \<Rightarrow> string \<Rightarrow> string
   \<Rightarrow> (error + Operation list) \<times> nat" where
  "updateApiOperations ids isChoreoConnectEnabled apiOperations n updatedOperation t v currentFlow =
     (case operationInAction isChoreoConnectEnabled apiOperations t v of
        None \<Rightarrow> (Inl TypeError, n)
      | Some i \<Rightarrow>
          (case flowPolicies (apiOperations ! i) currentFlow of
             Inl e \<Rightarrow> (Inl e, n)
           | Inr l \<Rightarrow>
               (case find_at (samePolicy updatedOperation) l of
                  Some j \<Rightarrow>
                    (Inr (apiOperations[i := setFlowPolicies (apiOperations ! i) currentFlow
                            (l[j := (l ! j)\<lparr>parameters := parameters updatedOperation\<rparr>])]),
                     n)
                | None \<Rightarrow>
                    (let (u, n') = uuidv4 ids n
                     in (Inr (apiOperations[i := setFlowPolicies (apiOperations ! i) currentFlow
                                (l @ [updatedOperation\<lparr>uuid := Some u\<rparr>])]),
                         n')))))"

text \<open>
  \<open>updateAllApiOperations\<close>: the \<open>forEach\<close> over the operations draws a uuid and then
  pushes onto the flow's array; a missing array throws after the uuid was drawn.
\<close>

fun pushToAll ::
  "(nat \<Rightarrow> string) \<Rightarrow> ApiPolicy \<Rightarrow> string \<Rightarrow> Operation list \<Rightarrow> nat
   \<Rightarrow> (error + Operation list) \<times> nat" where
  "pushToAll ids updatedOperation currentFlow [] n = (Inr [], n)"
| "pushToAll ids updatedOperation currentFlow (operation # rest) n =
     (let (u, n') = uuidv4 ids n
      in case flowPolicies operation currentFlow of
           Inl e \<Rightarrow> (Inl e, n')
         | Inr l \<Rightarrow>
             (case pushToAll ids updatedOperation currentFlow rest n' of
                (Inl e, n'') \<Rightarrow> (Inl e, n'')
              | (Inr rest', n'') \<Rightarrow>
                  (Inr (setFlowPolicies operation currentFlow
                          (l @ [updatedOperation\<lparr>uuid := Some u\<rparr>]) # rest'),
                   n'')))"

definition updateAllApiOperations ::
  "(nat \<Rightarrow> string) \<Rightarrow> Operation list \<Rightarrow> nat \<Rightarrow> ApiPolicy \<Rightarrow> string
   \<Rightarrow> (error + Operation list) \<times> nat" where
  "updateAllApiOperations ids apiOperations n updatedOperation currentFlow =
     pushToAll ids updatedOperation currentFlow apiOperations n"

text \<open>
  \<open>deleteApiOperation\<close>: the index of the uuid among the flow's uuids, then
  \<open>splice(index, 1)\<close>.
\<close>

definition deleteApiOperation ::
  "Operation list \<Rightarrow> string \<Rightarrow> string \<Rightarrow> string \<Rightarrow> string \<Rightarrow> error + Operation list" where
  "deleteApiOperation apiOperations u t v currentFlow =
     (case operationInAction False apiOperations t v of
        None \<Rightarrow> Inl TypeError
      | Some i \<Rightarrow>
          (case flowPolicies (apiOperations ! i) currentFlow of
             Inl e \<Rightarrow> Inl e
           | Inr l \<Rightarrow>
               (let index = indexOf (Some u) (map uuid l)
                in Inr (apiOperations[i := setFlowPolicies (apiOperations ! i) currentFlow
                          (splice_arr index 1 l)]))))"

text \<open>\<open>rearrangeApiOperations\<close>: the flow's array becomes \<open>arrayMove\<close> of itself.\<close>

definition rearrangeApiOperations ::
  "Operation list \<Rightarrow> nat \<Rightarrow> nat \<Rightarrow> string \<Rightarrow> string \<Rightarrow> string \<Rightarrow> error + Operation list" where
  "rearrangeApiOperations apiOperations oldIndex newIndex t v currentFlow =
     (case operationInAction False apiOperations t v of
        None \<Rightarrow> Inl TypeError
      | Some i \<Rightarrow>
          (case flowPolicies (apiOperations ! i) currentFlow of
             Inl e \<Rightarrow> Inl e
           | Inr policyArray \<Rightarrow>
               Inr (apiOperations[i := setFlowPolicies (apiOperations ! i) currentFlow
                      (arrayMove policyArray oldIndex newIndex)])))"

subsection \<open>saveApi\<close>

text \<open>
  The inner loop of \<open>saveApi\<close>: \<open>policyArray.forEach\<close> runs over the array read from
  \<open>operationPolicies[flow]\<close> before the loop. When \<open>isGatewayChanged\<close> holds, each item
  assigns a new empty array to \<open>operationPolicies[flow]\<close>; otherwise an item whose
  \<open>uuid\<close> is truthy loses it. The result is the last array assigned to
  \<open>operationPolicies[flow]\<close> during the loop (\<open>None\<close> when none was) and the items of
  \<open>policyArray\<close> after the loop.
\<close>

fun forEachPolicyItem :: "bool \<Rightarrow> ApiPolicy list \<Rightarrow> ApiPolicy list option \<times> ApiPolicy list" where
  "forEachPolicyItem isGatewayChanged [] = (None, [])"
| "forEachPolicyItem isGatewayChanged (policyItem # rest) =
     (let (later, rest') = forEachPolicyItem isGatewayChanged rest;
          here = (if isGatewayChanged then Some [] else None)
      in ((case later of None \<Rightarrow> here | Some l \<Rightarrow> Some l),
          (if \<not> isGatewayChanged \<and> truthy (uuid policyItem)
           then policyItem\<lparr>uuid := None\<rparr> else policyItem) # rest'))"

text \<open>What \<open>operationPolicies[flow]\<close> holds after the loop.\<close>

definition reconcileFlow :: "bool \<Rightarrow> ApiPolicy list \<Rightarrow> ApiPolicy list" where
  "reconcileFlow isGatewayChanged policyArray =
     (case forEachPolicyItem isGatewayChanged policyArray of
        (None, policyArray') \<Rightarrow> policyArray'
      | (Some assigned, _) \<Rightarrow> assigned)"

text \<open>
  The body of \<open>newApiOperations.forEach\<close>: nothing for an operation without
  \<open>operationPolicies\<close>, else the loop above for each own property \<open>flow\<close>.
\<close>

definition saveOperation :: "bool \<Rightarrow> Operation \<Rightarrow> Operation" where
  "saveOperation isGatewayChanged operation =
     (case operationPolicies operation of
        None \<Rightarrow> operation
      | Some pols \<Rightarrow>
          operation\<lparr>operationPolicies :=
            Some (map (\<lambda>(flow, policyArray). (flow, reconcileFlow isGatewayChanged policyArray))
                    pols)\<rparr>)"

text \<open>The argument \<open>saveApi\<close> passes to \<open>updateAPI\<close>.\<close>

record Payload =
  operations :: "Operation list"
  gatewayVendor :: string

definition saveApi :: "bool \<Rightarrow> bool \<Rightarrow> Operation list \<Rightarrow> Payload" where
  "saveApi isChoreoConnectEnabled isGatewayChanged apiOperations =
     \<lparr>operations = map (saveOperation isGatewayChanged) apiOperations,
      gatewayVendor = (if isChoreoConnectEnabled then ''WSO2_CHOREO_CONNECT'' else ''wso2'')\<rparr>"

text \<open>The flows' arrays of an operation, and of a list of operations, in order.\<close>

definition flowArraysOf :: "Operation \<Rightarrow> ApiPolicy list list" where
  "flowArraysOf operation =
     (case operationPolicies operation of
        None \<Rightarrow> []
      | Some pols \<Rightarrow> map snd pols)"

definition flowArrays :: "Operation list \<Rightarrow> ApiPolicy list list" where
  "flowArrays ops = concat (map flowArraysOf ops)"

text \<open>Every attached policy of a list of operations, in order.\<close>

definition attachedPolicies :: "Operation list \<Rightarrow> ApiPolicy list" where
  "attachedPolicies ops = concat (flowArrays ops)"

text \<open>
  The uuid of every attached policy is one of the first \<open>n\<close> identifiers of the
  generator.
\<close>

definition generatedUuids :: "(nat \<Rightarrow> string) \<Rightarrow> nat \<Rightarrow> Operation list \<Rightarrow> bool" where
  "generatedUuids ids n ops \<longleftrightarrow>
     (\<forall>p \<in> set (attachedPolicies ops). \<exists>k < n. uuid p = Some (ids k))"

text \<open>What a handler that changes one flow's array of one operation leaves alone.\<close>

definition onlyFlowChanged ::
  "Operation list \<Rightarrow> Operation list \<Rightarrow> nat \<Rightarrow> string \<Rightarrow> bool" where
  "onlyFlowChanged ops ops' i flow \<longleftrightarrow>
     length ops' = length ops \<and>
     (\<forall>k < length ops. k \<noteq> i \<longrightarrow> ops' ! k = ops ! k) \<and>
     target (ops' ! i) = target (ops ! i) \<and>
     verb (ops' ! i) = verb (ops ! i) \<and>
     (\<forall>flow'. flow' \<noteq> flow \<longrightarrow> flowPolicies (ops' ! i) flow' = flowPolicies (ops ! i) flow')"

subsection \<open>fetchPolicies\<close>

text \<open>A catalog entry; \<open>id'\<close> is the entry's \<open>id\<close>.\<close>

record Policy =
  id' :: string
  displayName :: string
  supportedGateways :: "string list"

definition mergedList :: "Policy list \<Rightarrow> Policy list \<Rightarrow> Policy list" where
  "mergedList apiSpecificPolicies commonPolicies = commonPolicies @ apiSpecificPolicies"

text \<open>
  \<open>mergedList.reduce((map, obj) => map.set(obj.displayName, obj), new Map()).values()\<close>:
  a \<open>Map\<close> keeps a key at the position of its first insertion and the value of its last.
\<close>

definition unionByPolicyDisplayName :: "Policy list \<Rightarrow> Policy list" where
  "unionByPolicyDisplayName merged =
     map snd (foldl (\<lambda>m obj. AList.update (displayName obj) obj m) [] merged)"

text \<open>
  \<open>Array.prototype.sort\<close> with the comparator
  \<open>(a, b) => a.displayName.localeCompare(b.displayName)\<close>. The sort is stable; the
  comparison of the locale is the parameter \<open>localeCompare\<close> (negative, zero or positive).
\<close>

fun insertByDisplayName :: "(string \<Rightarrow> string \<Rightarrow> int) \<Rightarrow> Policy \<Rightarrow> Policy list \<Rightarrow> Policy list" where
  "insertByDisplayName localeCompare a [] = [a]"
| "insertByDisplayName localeCompare a (b # bs) =
     (if localeCompare (displayName a) (displayName b) \<le> 0 then a # b # bs
      else b # insertByDisplayName localeCompare a bs)"

definition sortByDisplayName :: "(string \<Rightarrow> string \<Rightarrow> int) \<Rightarrow> Policy list \<Rightarrow> Policy list" where
  "sortByDisplayName localeCompare xs = foldr (insertByDisplayName localeCompare) xs []"

definition filteredList :: "(string \<Rightarrow> string \<Rightarrow> int) \<Rightarrow> Policy list \<Rightarrow> Policy list \<Rightarrow> Policy list" where
  "filteredList localeCompare apiSpecificPolicies commonPolicies =
     filter (\<lambda>policy. ''Synapse'' \<in> set (supportedGateways policy))
       (sortByDisplayName localeCompare
          (unionByPolicyDisplayName (mergedList apiSpecificPolicies commonPolicies)))"

text \<open>The two pieces of state \<open>fetchPolicies\<close> sets once both responses have arrived.\<close>

record Catalog =
  allPolicies :: "Policy list"
  policies :: "Policy list"

definition fetchPolicies :: "(string \<Rightarrow> string \<Rightarrow> int) \<Rightarrow> Policy list \<Rightarrow> Policy list \<Rightarrow> Catalog" where
  "fetchPolicies localeCompare apiSpecificPolicies commonPolicies =
     \<lparr>allPolicies = mergedList apiSpecificPolicies commonPolicies,
      policies = filteredList localeCompare apiSpecificPolicies commonPolicies\<rparr>"

text \<open>
  The last entry of a list with a given display name: the entry a deduplication by
  display name that keeps the last-seen entry retains for that name.
\<close>

definition lastWithDisplayName :: "Policy list \<Rightarrow> string \<Rightarrow> Policy option" where
  "lastWithDisplayName merged name = List.find (\<lambda>p. displayName p = name) (rev merged)"

text \<open>
  A consistent comparison function, as \<open>Array.prototype.sort\<close> requires for a defined
  order: any two strings are comparable, and the order is transitive.
\<close>

definition consistentComparator :: "(string \<Rightarrow> string \<Rightarrow> int) \<Rightarrow> bool" where
  "consistentComparator localeCompare \<longleftrightarrow>
     (\<forall>a b. localeCompare a b \<le> 0 \<or> localeCompare b a \<le> 0) \<and>
     (\<forall>a b c. localeCompare a b \<le> 0 \<and> localeCompare b c \<le> 0 \<longrightarrow> localeCompare a c \<le> 0)"


subsection \<open>Sample data\<close>

definition policyA :: ApiPolicy where
  "policyA = \<lparr>policyId = ''P1'', parameters = [(''a'', ''1'')], uuid = Some ''U1'', others = []\<rparr>"

definition policyB :: ApiPolicy where
  "policyB = \<lparr>policyId = ''P2'', parameters = [], uuid = Some ''U2'', others = []\<rparr>"

definition policyC :: ApiPolicy where
  "policyC = \<lparr>policyId = ''P3'', parameters = [], uuid = Some ''U3'', others = []\<rparr>"

definition policyD :: ApiPolicy where
  "policyD = \<lparr>policyId = ''P4'', parameters = [], uuid = Some ''U4'', others = []\<rparr>"

definition petsGet :: Operation where
  "petsGet = \<lparr>target = ''/pets'', verb = ''GET'',
              operationPolicies =
                Some [(''request'', [policyA, policyB]), (''response'', [policyC]), (''fault'', [])]\<rparr>"

definition petsPost :: Operation where
  "petsPost = \<lparr>target = ''/pets'', verb = ''POST'',
               operationPolicies =
                 Some [(''request'', [policyD]), (''response'', []), (''fault'', [])]\<rparr>"

definition ordersPut :: Operation where
  "ordersPut = \<lparr>target = ''/orders'', verb = ''PUT'',
                operationPolicies =
                  Some [(''request'', [policyA, policyB, policyC, policyD]),
                        (''response'', [policyB]), (''fault'', [])]\<rparr>"

text \<open>A generator: its \<open>k\<close>-th identifier is \<open>id-\<close> followed by \<open>k\<close> letters.\<close>

definition sampleIds :: "nat \<Rightarrow> string" where
  "sampleIds k = ''id-'' @ replicate k (CHR ''i'')"

definition sampleOperations :: "Operation list" where
  "sampleOperations = [petsGet, petsPost]"

text \<open>The operations of an API as persisted: no attached policy has a uuid.\<close>

definition persistedOperations :: "Operation list" where
  "persistedOperations =
     [\<lparr>target = ''/pets'', verb = ''GET'',
       operationPolicies =
         Some [(''request'', [policyA\<lparr>uuid := None\<rparr>, policyB\<lparr>uuid := None\<rparr>]),
               (''response'', [policyC\<lparr>uuid := None\<rparr>]), (''fault'', [])]\<rparr>,
      \<lparr>target = ''/health'', verb = ''GET'', operationPolicies = None\<rparr>]"

text \<open>A state whose only uuid is the generator's first identifier.\<close>

definition generatedOperations :: "Operation list" where
  "generatedOperations =
     [\<lparr>target = ''/pets'', verb = ''GET'',
       operationPolicies = Some [(''request'', [policyA\<lparr>uuid := Some ''id-''\<rparr>])]\<rparr>]"

text \<open>A locale comparison: strings ordered by their code units.\<close>

definition codeUnitCompare :: "string \<Rightarrow> string \<Rightarrow> int" where
  "codeUnitCompare a b = (if a < b then - 1 else if a = b then 0 else 1)"

definition rateLimitCommon :: Policy where
  "rateLimitCommon =
     \<lparr>id' = ''c1'', displayName = ''Rate Limit'', supportedGateways = [''Synapse'']\<rparr>"

definition rateLimitApi :: Policy where
  "rateLimitApi =
     \<lparr>id' = ''a1'', displayName = ''Rate Limit'',
      supportedGateways = [''Synapse'', ''ChoreoConnect'']\<rparr>"

definition addHeader :: Policy where
  "addHeader =
     \<lparr>id' = ''c2'', displayName = ''Add Header'', supportedGateways = [''Synapse'']\<rparr>"

definition ccOnly :: Policy where
  "ccOnly =
     \<lparr>id' = ''c3'', displayName = ''Call Interceptor'', supportedGateways = [''ChoreoConnect'']\<rparr>"

section \<open>Properties\<close>

subsection \<open>Library functions\<close>

lemma find_at_Some_iff:
  "find_at P xs = Some i \<longleftrightarrow> i < length xs \<and> P (xs ! i) \<and> (\<forall>j<i. \<not> P (xs ! j))"
proof (induction xs arbitrary: i)
  case Nil
  then show ?case by simp
next
  case (Cons x xs)
  show ?case
  proof (cases "P x")
    case True
    then show ?thesis by (cases i) auto
  next
    case False
    then show ?thesis
      by (cases i) (auto simp: Cons.IH nth_Cons' less_Suc_eq_0_disj)
  qed
qed

lemma find_at_None_iff: "find_at P xs = None \<longleftrightarrow> (\<forall>x\<in>set xs. \<not> P x)"
  by (induction xs) auto

lemma indexOf_absent:
  assumes "x \<notin> set xs"
  shows "indexOf x xs = - 1"
proof -
  from assms have "find_at (\<lambda>y. y = x) xs = None"
    by (auto simp: find_at_None_iff)
  then show ?thesis by (simp add: indexOf_def)
qed

lemma splice_arr_minus_one: "splice_arr (- 1) (Suc 0) xs = butlast xs"
  unfolding splice_arr_def Let_def
  by (cases xs rule: rev_cases) (auto simp: butlast_conv_take)

lemmas sample_defs =
  policyA_def policyB_def policyC_def policyD_def petsGet_def petsPost_def ordersPut_def
  sampleOperations_def

subsection \<open>saveApi\<close>

lemma forEachPolicyItem_changed:
  "forEachPolicyItem True l = ((if l = [] then None else Some []), l)"
  by (induction l) (auto split: prod.splits option.splits)

lemma reconcileFlow_changed: "reconcileFlow True l = []"
  by (simp add: reconcileFlow_def forEachPolicyItem_changed)

lemma forEachPolicyItem_unchanged:
  "forEachPolicyItem False l =
     (None, map (\<lambda>p. if truthy (uuid p) then p\<lparr>uuid := None\<rparr> else p) l)"
  by (induction l) (auto split: prod.splits option.splits)

lemma reconcileFlow_unchanged:
  "reconcileFlow False l = map (\<lambda>p. if truthy (uuid p) then p\<lparr>uuid := None\<rparr> else p) l"
  by (simp add: reconcileFlow_def forEachPolicyItem_unchanged)

lemma flowArrays_saveApi:
  "flowArrays (operations (saveApi cc ch ops)) = map (reconcileFlow ch) (flowArrays ops)"
  by (induction ops)
     (auto simp: flowArrays_def flowArraysOf_def saveApi_def saveOperation_def
           split: option.splits)

lemmas attached_defs = flowArrays_def flowArraysOf_def attachedPolicies_def

lemmas saveApi_defs =
  saveApi_def saveOperation_def reconcileFlow_def truthy_def attached_defs

text \<open>
  Claim C2. When \<open>saveApi\<close> runs with \<open>isGatewayChanged = true\<close>, every flow's array in
  the operations it hands to \<open>updateAPI\<close> is empty, whatever it held before; no flow is
  dropped from the payload.
\<close>

theorem saveApi_gateway_changed_empties_flows:
  "(\<forall>l \<in> set (flowArrays (operations (saveApi cc True ops))). l = []) \<and>
   length (flowArrays (operations (saveApi cc True ops))) = length (flowArrays ops)"
  by (simp add: flowArrays_saveApi reconcileFlow_changed)

theorem saveApi_gateway_changed_empties_flows_witness:
  "flowArrays sampleOperations =
     [[policyA, policyB], [policyC], [], [policyD], [], []] \<and>
   flowArrays (operations (saveApi False True sampleOperations)) = [[], [], [], [], [], []]"
  using saveApi_gateway_changed_empties_flows [of False sampleOperations]
  by (simp add: sample_defs saveApi_defs)

text \<open>
  Without \<open>isGatewayChanged\<close> the loop deletes every truthy uuid: where no uuid is the
  empty string, the attached policies of the payload are those of the state without
  their uuid.
\<close>

lemma saveApi_strips_nonempty_uuids:
  assumes "\<forall>p \<in> set (attachedPolicies ops). uuid p \<noteq> Some []"
  shows "attachedPolicies (operations (saveApi cc False ops)) =
           map (\<lambda>p. p\<lparr>uuid := None\<rparr>) (attachedPolicies ops) \<and>
         (\<forall>p \<in> set (attachedPolicies (operations (saveApi cc False ops))). uuid p = None)"
proof -
  have strip: "(if truthy (uuid p) then p\<lparr>uuid := None\<rparr> else p) = p\<lparr>uuid := None\<rparr>"
    if "p \<in> set (attachedPolicies ops)" for p
  proof (cases "uuid p")
    case None
    then show ?thesis by (simp add: truthy_def)
  next
    case (Some s)
    with assms that have "s \<noteq> []" by auto
    with Some show ?thesis by (simp add: truthy_def)
  qed
  have "attachedPolicies (operations (saveApi cc False ops)) =
        concat (map (map (\<lambda>p. if truthy (uuid p) then p\<lparr>uuid := None\<rparr> else p)) (flowArrays ops))"
    by (simp add: attachedPolicies_def flowArrays_saveApi reconcileFlow_unchanged[abs_def])
  also have "\<dots> = map (\<lambda>p. if truthy (uuid p) then p\<lparr>uuid := None\<rparr> else p) (attachedPolicies ops)"
    by (simp add: attachedPolicies_def map_concat)
  also have "\<dots> = map (\<lambda>p. p\<lparr>uuid := None\<rparr>) (attachedPolicies ops)"
    using strip by (intro map_cong) auto
  finally show ?thesis by simp
qed

subsection \<open>The located operation and its flow\<close>

lemma operationInAction_SomeD:
  assumes "operationInAction cc ops t v = Some i"
  shows "i < length ops" and "matchesOperation cc t v (ops ! i)"
    and "\<forall>j<i. \<not> matchesOperation cc t v (ops ! j)"
  using assms by (simp_all add: operationInAction_def find_at_Some_iff)

lemma flowPolicies_InrD:
  assumes "flowPolicies op flow = Inr l"
  shows "\<exists>pols. operationPolicies op = Some pols \<and> map_of pols flow = Some l"
  using assms by (auto simp: flowPolicies_def split: option.splits)

lemma flowPolicies_setFlowPolicies_same:
  assumes "flowPolicies op flow = Inr l"
  shows "flowPolicies (setFlowPolicies op flow l') flow = Inr l'"
  using flowPolicies_InrD[OF assms]
  by (auto simp: flowPolicies_def setFlowPolicies_def update_conv')

lemma flowPolicies_setFlowPolicies_other:
  assumes "flow' \<noteq> flow"
  shows "flowPolicies (setFlowPolicies op flow l') flow' = flowPolicies op flow'"
  using assms
  by (auto simp: flowPolicies_def setFlowPolicies_def update_conv' split: option.splits)

lemma target_setFlowPolicies [simp]: "target (setFlowPolicies op flow l) = target op"
  by (simp add: setFlowPolicies_def)

lemma verb_setFlowPolicies [simp]: "verb (setFlowPolicies op flow l) = verb op"
  by (simp add: setFlowPolicies_def)

lemmas op_defs =
  operationInAction_def matchesOperation_def toLowerCase_def toLowerCaseChar_def
  flowPolicies_def setFlowPolicies_def

subsection \<open>deleteApiOperation\<close>

text \<open>
  Claim C1. The claim is that removing a uuid no attached policy of the flow carries
  leaves the flow's array unchanged. The handler does otherwise: \<open>indexOf\<close> returns
  \<open>-1\<close> and \<open>splice(-1, 1)\<close> removes the last element, so the flow's array loses its last
  attached policy.
\<close>

theorem deleteApiOperation_unknown_uuid_removes_last:
  assumes loc: "operationInAction False ops t v = Some i"
    and fl: "flowPolicies (ops ! i) flow = Inr l"
    and unknown: "\<forall>p \<in> set l. uuid p \<noteq> Some u"
  shows "deleteApiOperation ops u t v flow =
           Inr (ops[i := setFlowPolicies (ops ! i) flow (butlast l)]) \<and>
         flowPolicies (ops[i := setFlowPolicies (ops ! i) flow (butlast l)] ! i) flow =
           Inr (butlast l)"
proof -
  from unknown have "Some u \<notin> set (map uuid l)" by auto
  then have "indexOf (Some u) (map uuid l) = - 1" by (rule indexOf_absent)
  then have "deleteApiOperation ops u t v flow =
           Inr (ops[i := setFlowPolicies (ops ! i) flow (butlast l)])"
    using loc fl by (simp add: deleteApiOperation_def splice_arr_minus_one)
  moreover from loc have "i < length ops" by (rule operationInAction_SomeD)
  ultimately show ?thesis
    using fl by (simp add: flowPolicies_setFlowPolicies_same)
qed

theorem deleteApiOperation_unknown_uuid_removes_last_witness:
  "flowPolicies (sampleOperations ! 0) ''request'' = Inr [policyA, policyB] \<and>
   deleteApiOperation sampleOperations ''U9'' ''/pets'' ''get'' ''request'' =
     Inr [petsGet\<lparr>operationPolicies :=
            Some [(''request'', [policyA]), (''response'', [policyC]), (''fault'', [])]\<rparr>,
          petsPost]"
proof -
  have loc: "operationInAction False sampleOperations ''/pets'' ''get'' = Some 0"
    by (simp add: sample_defs op_defs)
  have fl: "flowPolicies (sampleOperations ! 0) ''request'' = Inr [policyA, policyB]"
    by (simp add: sample_defs op_defs)
  have unknown: "\<forall>p \<in> set [policyA, policyB]. uuid p \<noteq> Some ''U9''"
    by (simp add: sample_defs)
  from deleteApiOperation_unknown_uuid_removes_last [OF loc fl unknown] fl
  show ?thesis
    by (simp add: sample_defs setFlowPolicies_def)
qed

subsection \<open>The operation locator\<close>

lemma operationInAction_None_iff:
  "operationInAction cc ops t v = None \<longleftrightarrow> (\<forall>op \<in> set ops. \<not> matchesOperation cc t v op)"
  by (simp add: operationInAction_def find_at_None_iff)

lemma matchesOperation_constrained:
  "matchesOperation True t v = (\<lambda>op. target op = t)"
  by (rule ext) (simp add: matchesOperation_def)

text \<open>
  Claim C5. The locator of \<open>updateApiOperations\<close> returns the first operation with
  the target when Choreo Connect is enabled, whatever the verb argument; otherwise it
  returns the first operation with the target whose verb equals the verb argument up to
  case. Without Choreo Connect, verb arguments that differ (up to case) never locate the
  same operation.
\<close>

theorem operationInAction_by_mode:
  "operationInAction True ops t v = operationInAction True ops t v' \<and>
   (\<forall>i. operationInAction True ops t v = Some i \<longrightarrow>
        i < length ops \<and> target (ops ! i) = t \<and> (\<forall>j<i. target (ops ! j) \<noteq> t)) \<and>
   (operationInAction True ops t v = None \<longleftrightarrow> (\<forall>op \<in> set ops. target op \<noteq> t)) \<and>
   (\<forall>i. operationInAction False ops t v = Some i \<longrightarrow>
        i < length ops \<and> target (ops ! i) = t \<and> toLowerCase (verb (ops ! i)) = toLowerCase v \<and>
        (\<forall>j<i. \<not> (target (ops ! j) = t \<and> toLowerCase (verb (ops ! j)) = toLowerCase v))) \<and>
   (operationInAction False ops t v = None \<longleftrightarrow>
      (\<forall>op \<in> set ops. \<not> (target op = t \<and> toLowerCase (verb op) = toLowerCase v))) \<and>
   (\<forall>i i'. operationInAction False ops t v = Some i \<and>
           operationInAction False ops t v' = Some i' \<and>
           toLowerCase v \<noteq> toLowerCase v' \<longrightarrow> i \<noteq> i') \<and>
   updateApiOperations ids True ops n upd t v flow =
     updateApiOperations ids True ops n upd t v' flow"
proof -
  have same: "operationInAction True ops t v = operationInAction True ops t v'"
    by (simp add: operationInAction_def matchesOperation_constrained)
  have upsert: "updateApiOperations ids True ops n upd t v flow =
     updateApiOperations ids True ops n upd t v' flow"
    by (simp add: updateApiOperations_def same)
  have constrained: "i < length ops \<and> target (ops ! i) = t \<and> (\<forall>j<i. target (ops ! j) \<noteq> t)"
    if "operationInAction True ops t v = Some i" for i
    using operationInAction_SomeD[OF that] by (simp add: matchesOperation_def)
  have constrained_none:
    "operationInAction True ops t v = None \<longleftrightarrow> (\<forall>op \<in> set ops. target op \<noteq> t)"
    by (simp add: operationInAction_None_iff matchesOperation_def)
  have regular: "i < length ops \<and> target (ops ! i) = t \<and>
      toLowerCase (verb (ops ! i)) = toLowerCase w \<and>
      (\<forall>j<i. \<not> (target (ops ! j) = t \<and> toLowerCase (verb (ops ! j)) = toLowerCase w))"
    if "operationInAction False ops t w = Some i" for i w
    using operationInAction_SomeD[OF that] by (simp add: matchesOperation_def)
  have regular_none: "operationInAction False ops t v = None \<longleftrightarrow>
      (\<forall>op \<in> set ops. \<not> (target op = t \<and> toLowerCase (verb op) = toLowerCase v))"
    by (simp add: operationInAction_None_iff matchesOperation_def)
  have apart: "i \<noteq> i'"
    if "operationInAction False ops t v = Some i \<and>
        operationInAction False ops t v' = Some i' \<and>
        toLowerCase v \<noteq> toLowerCase v'" for i i'
  proof
    assume "i = i'"
    with that regular[of v i] regular[of v' i'] show False by simp
  qed
  from same upsert constrained constrained_none regular[of v] regular_none apart
  show ?thesis by blast
qed

theorem operationInAction_by_mode_witness:
  "operationInAction True sampleOperations ''/pets'' ''get'' = Some 0 \<and>
   operationInAction True sampleOperations ''/pets'' ''post'' = Some 0 \<and>
   operationInAction False sampleOperations ''/pets'' ''get'' = Some 0 \<and>
   operationInAction False sampleOperations ''/pets'' ''post'' = Some 1 \<and>
   operationInAction False sampleOperations ''/pets'' ''put'' = None \<and>
   operationInAction True sampleOperations ''/pets'' ''put'' = Some 0"
  using operationInAction_by_mode [of sampleOperations "''/pets''" "''get''" "''post''"]
  by (simp add: sample_defs op_defs)

subsection \<open>updateApiOperations\<close>

lemma updateApiOperations_edit:
  assumes "operationInAction cc ops t v = Some i"
    and "flowPolicies (ops ! i) flow = Inr l"
    and "find_at (samePolicy upd) l = Some j"
  shows "updateApiOperations ids cc ops n upd t v flow =
           (Inr (ops[i := setFlowPolicies (ops ! i) flow
                         (l[j := (l ! j)\<lparr>parameters := parameters upd\<rparr>])]), n)"
  using assms by (simp add: updateApiOperations_def)

lemma updateApiOperations_add:
  assumes "operationInAction cc ops t v = Some i"
    and "flowPolicies (ops ! i) flow = Inr l"
    and "find_at (samePolicy upd) l = None"
  shows "updateApiOperations ids cc ops n upd t v flow =
           (Inr (ops[i := setFlowPolicies (ops ! i) flow
                         (l @ [upd\<lparr>uuid := Some (ids n)\<rparr>])]), Suc n)"
  using assms by (simp add: updateApiOperations_def uuidv4_def)

lemma onlyFlowChanged_update:
  assumes "i < length ops"
  shows "onlyFlowChanged ops (ops[i := setFlowPolicies (ops ! i) flow l']) i flow"
  using assms by (simp add: onlyFlowChanged_def flowPolicies_setFlowPolicies_other)

text \<open>
  Claim C3. Where the operation is located and has the flow's array,
  \<open>updateApiOperations\<close> succeeds and changes that array only. If the array holds an
  attached policy with the incoming \<open>policyId\<close> and \<open>uuid\<close>, the array keeps its
  length and order, every entry keeps its \<open>policyId\<close>, \<open>uuid\<close> and other
  properties, one matching entry takes the incoming parameters and all the other entries
  are unchanged; no identifier is drawn. Otherwise one identifier is drawn and the
  incoming policy is appended at the end under that identifier.
\<close>

theorem updateApiOperations_edit_or_add:
  assumes loc: "operationInAction cc ops t v = Some i"
    and fl: "flowPolicies (ops ! i) flow = Inr l"
  shows "\<exists>ops' l'.
           fst (updateApiOperations ids cc ops n upd t v flow) = Inr ops' \<and>
           onlyFlowChanged ops ops' i flow \<and>
           flowPolicies (ops' ! i) flow = Inr l' \<and>
           (if \<exists>p \<in> set l. policyId p = policyId upd \<and> uuid p = uuid upd
            then length l' = length l \<and>
                 (\<forall>k < length l.
                    policyId (l' ! k) = policyId (l ! k) \<and> uuid (l' ! k) = uuid (l ! k) \<and>
                    others (l' ! k) = others (l ! k)) \<and>
                 (\<exists>j < length l.
                    policyId (l ! j) = policyId upd \<and> uuid (l ! j) = uuid upd \<and>
                    parameters (l' ! j) = parameters upd \<and>
                    (\<forall>k < length l. k \<noteq> j \<longrightarrow> l' ! k = l ! k)) \<and>
                 snd (updateApiOperations ids cc ops n upd t v flow) = n
            else l' = l @ [upd\<lparr>uuid := Some (ids n)\<rparr>] \<and>
                 snd (updateApiOperations ids cc ops n upd t v flow) = Suc n)"
proof -
  from loc have i: "i < length ops" by (rule operationInAction_SomeD)
  show ?thesis
  proof (cases "find_at (samePolicy upd) l")
    case None
    then have no: "\<not> (\<exists>p \<in> set l. policyId p = policyId upd \<and> uuid p = uuid upd)"
      by (simp add: find_at_None_iff samePolicy_def)
    let ?l' = "l @ [upd\<lparr>uuid := Some (ids n)\<rparr>]"
    let ?ops' = "ops[i := setFlowPolicies (ops ! i) flow ?l']"
    have "fst (updateApiOperations ids cc ops n upd t v flow) = Inr ?ops'"
      and "snd (updateApiOperations ids cc ops n upd t v flow) = Suc n"
      by (simp_all add: updateApiOperations_add[OF loc fl None])
    moreover have "onlyFlowChanged ops ?ops' i flow"
      using i by (rule onlyFlowChanged_update)
    moreover have "flowPolicies (?ops' ! i) flow = Inr ?l'"
      using i fl by (simp add: flowPolicies_setFlowPolicies_same)
    ultimately show ?thesis using no by (intro exI[of _ ?ops'] exI[of _ ?l']) simp
  next
    case (Some j)
    then have j: "j < length l" "samePolicy upd (l ! j)"
      by (simp_all add: find_at_Some_iff)
    then have yes: "\<exists>p \<in> set l. policyId p = policyId upd \<and> uuid p = uuid upd"
      by (auto simp: samePolicy_def intro!: bexI[of _ "l ! j"])
    let ?l' = "l[j := (l ! j)\<lparr>parameters := parameters upd\<rparr>]"
    let ?ops' = "ops[i := setFlowPolicies (ops ! i) flow ?l']"
    have "fst (updateApiOperations ids cc ops n upd t v flow) = Inr ?ops'"
      and "snd (updateApiOperations ids cc ops n upd t v flow) = n"
      by (simp_all add: updateApiOperations_edit[OF loc fl Some])
    moreover have "onlyFlowChanged ops ?ops' i flow"
      using i by (rule onlyFlowChanged_update)
    moreover have "flowPolicies (?ops' ! i) flow = Inr ?l'"
      using i fl by (simp add: flowPolicies_setFlowPolicies_same)
    moreover have "length ?l' = length l" by simp
    moreover have "\<forall>k < length l.
                    policyId (?l' ! k) = policyId (l ! k) \<and> uuid (?l' ! k) = uuid (l ! k) \<and>
                    others (?l' ! k) = others (l ! k)"
      using j by (simp add: nth_list_update)
    moreover have "\<exists>j < length l.
                    policyId (l ! j) = policyId upd \<and> uuid (l ! j) = uuid upd \<and>
                    parameters (?l' ! j) = parameters upd \<and>
                    (\<forall>k < length l. k \<noteq> j \<longrightarrow> ?l' ! k = l ! k)"
      using j by (intro exI[of _ j]) (simp add: samePolicy_def)
    ultimately show ?thesis using yes
      by (intro exI[of _ ?ops'] exI[of _ ?l']) (simp only: if_True simp_thms)
  qed
qed

theorem updateApiOperations_edit_or_add_witness:
  "updateApiOperations sampleIds False sampleOperations 4
     (policyA\<lparr>parameters := [(''a'', ''2'')]\<rparr>) ''/pets'' ''get'' ''request'' =
     (Inr [petsGet\<lparr>operationPolicies :=
             Some [(''request'', [policyA\<lparr>parameters := [(''a'', ''2'')]\<rparr>, policyB]),
                   (''response'', [policyC]), (''fault'', [])]\<rparr>,
           petsPost], 4) \<and>
   updateApiOperations sampleIds False sampleOperations 4
     (policyA\<lparr>parameters := [(''a'', ''2'')], uuid := Some ''U2''\<rparr>) ''/pets'' ''get'' ''request'' =
     (Inr [petsGet\<lparr>operationPolicies :=
             Some [(''request'',
                    [policyA, policyB,
                     policyA\<lparr>parameters := [(''a'', ''2'')], uuid := Some ''id-iiii''\<rparr>]),
                   (''response'', [policyC]), (''fault'', [])]\<rparr>,
           petsPost], 5)"
proof -
  have loc: "operationInAction False sampleOperations ''/pets'' ''get'' = Some 0"
    by (simp add: sample_defs op_defs)
  have fl: "flowPolicies (sampleOperations ! 0) ''request'' = Inr [policyA, policyB]"
    by (simp add: sample_defs op_defs)
  have edit: "find_at (samePolicy (policyA\<lparr>parameters := [(''a'', ''2'')]\<rparr>)) [policyA, policyB] =
      Some 0"
    by (simp add: sample_defs samePolicy_def)
  have add: "find_at (samePolicy (policyA\<lparr>parameters := [(''a'', ''2'')], uuid := Some ''U2''\<rparr>))
      [policyA, policyB] = None"
    by (simp add: sample_defs samePolicy_def)
  have gen: "sampleIds 4 = ''id-iiii''"
    by (simp add: sampleIds_def numeral_eq_Suc)
  from updateApiOperations_edit_or_add [OF loc fl, of sampleIds 4 "policyA\<lparr>parameters := [(''a'', ''2'')]\<rparr>"]
    updateApiOperations_edit_or_add [OF loc fl, of sampleIds 4
      "policyA\<lparr>parameters := [(''a'', ''2'')], uuid := Some ''U2''\<rparr>"]
  show ?thesis
    unfolding updateApiOperations_edit [OF loc fl edit] updateApiOperations_add [OF loc fl add] gen
    by (simp add: sample_defs setFlowPolicies_def)
qed

subsection \<open>updateAllApiOperations\<close>

lemma inj_sampleIds: "inj sampleIds"
  by (rule injI) (simp add: sampleIds_def)

lemma pushToAll_Inr:
  assumes "pushToAll ids upd flow ops n = (Inr ops', n')"
  shows "n' = n + length ops \<and> length ops' = length ops \<and>
         (\<forall>k < length ops. \<exists>l. flowPolicies (ops ! k) flow = Inr l \<and>
            ops' ! k = setFlowPolicies (ops ! k) flow (l @ [upd\<lparr>uuid := Some (ids (n + k))\<rparr>]))"
  using assms
proof (induction ops arbitrary: n ops' n')
  case Nil
  then show ?case by simp
next
  case (Cons op ops)
  from Cons.prems obtain l rest' where
    l: "flowPolicies op flow = Inr l"
    and rest: "pushToAll ids upd flow ops (Suc n) = (Inr rest', n')"
    and ops': "ops' = setFlowPolicies op flow (l @ [upd\<lparr>uuid := Some (ids n)\<rparr>]) # rest'"
    by (auto simp: uuidv4_def split: sum.splits prod.splits)
  from Cons.IH[OF rest] have
    ih: "n' = Suc n + length ops" "length rest' = length ops"
      "\<forall>k < length ops. \<exists>l. flowPolicies (ops ! k) flow = Inr l \<and>
            rest' ! k = setFlowPolicies (ops ! k) flow (l @ [upd\<lparr>uuid := Some (ids (Suc n + k))\<rparr>])"
    by simp_all
  have "\<exists>l. flowPolicies ((op # ops) ! k) flow = Inr l \<and>
            ops' ! k = setFlowPolicies ((op # ops) ! k) flow (l @ [upd\<lparr>uuid := Some (ids (n + k))\<rparr>])"
    if "k < length (op # ops)" for k
  proof (cases k)
    case 0
    with l ops' show ?thesis by simp
  next
    case (Suc k')
    with that ih(3) ops' show ?thesis by simp
  qed
  with ih ops' show ?case by simp
qed

lemma pushToAll_total:
  assumes "\<forall>op \<in> set ops. \<exists>l. flowPolicies op flow = Inr l"
  shows "\<exists>ops'. pushToAll ids upd flow ops n = (Inr ops', n + length ops)"
  using assms
proof (induction ops arbitrary: n)
  case Nil
  then show ?case by simp
next
  case (Cons op ops)
  then obtain l where l: "flowPolicies op flow = Inr l" by auto
  from Cons obtain rest' where "pushToAll ids upd flow ops (Suc n) = (Inr rest', Suc n + length ops)"
    by fastforce
  with l show ?case by (simp add: uuidv4_def)
qed

text \<open>
  Claim C9. Where every operation has the flow's array and the generator never repeats
  an identifier, \<open>updateAllApiOperations\<close> on \<open>K\<close> operations succeeds, draws
  \<open>K\<close> identifiers and appends to the flow's array of each operation exactly one policy,
  the incoming one under the operation's own identifier; nothing else changes. The
  \<open>K\<close> identifiers are pairwise distinct and differ from every identifier drawn before.
\<close>

theorem updateAllApiOperations_appends_fresh:
  assumes uniq: "inj ids"
    and flows: "\<forall>op \<in> set ops. \<exists>l. flowPolicies op flow = Inr l"
  shows "\<exists>ops'.
           updateAllApiOperations ids ops n upd flow = (Inr ops', n + length ops) \<and>
           length ops' = length ops \<and>
           (\<forall>k < length ops. \<exists>l.
              flowPolicies (ops ! k) flow = Inr l \<and>
              flowPolicies (ops' ! k) flow = Inr (l @ [upd\<lparr>uuid := Some (ids (n + k))\<rparr>]) \<and>
              onlyFlowChanged ops (ops[k := ops' ! k]) k flow) \<and>
           distinct (map (\<lambda>k. ids (n + k)) [0..<length ops]) \<and>
           (\<forall>k < length ops. \<forall>j < n. ids (n + k) \<noteq> ids j)"
proof -
  from pushToAll_total[OF flows] obtain ops'
    where run: "pushToAll ids upd flow ops n = (Inr ops', n + length ops)" by blast
  note r = pushToAll_Inr[OF run]
  have each: "\<exists>l. flowPolicies (ops ! k) flow = Inr l \<and>
              flowPolicies (ops' ! k) flow = Inr (l @ [upd\<lparr>uuid := Some (ids (n + k))\<rparr>]) \<and>
              onlyFlowChanged ops (ops[k := ops' ! k]) k flow"
    if k: "k < length ops" for k
  proof -
    from r k obtain l where l: "flowPolicies (ops ! k) flow = Inr l"
      and o: "ops' ! k = setFlowPolicies (ops ! k) flow (l @ [upd\<lparr>uuid := Some (ids (n + k))\<rparr>])"
      by blast
    from l o have "flowPolicies (ops' ! k) flow = Inr (l @ [upd\<lparr>uuid := Some (ids (n + k))\<rparr>])"
      by (simp add: flowPolicies_setFlowPolicies_same)
    moreover from k o have "onlyFlowChanged ops (ops[k := ops' ! k]) k flow"
      by (simp add: onlyFlowChanged_update)
    ultimately show ?thesis using l by blast
  qed
  have shift: "k = k'" if "ids (n + k) = ids (n + k')" for k k'
    using injD[OF uniq that] by simp
  have "inj_on (\<lambda>k. ids (n + k)) (set [0..<length ops])"
    by (rule inj_onI) (rule shift)
  then have d: "distinct (map (\<lambda>k. ids (n + k)) [0..<length ops])"
    by (simp add: distinct_map)
  have fresh: "\<forall>k < length ops. \<forall>j < n. ids (n + k) \<noteq> ids j"
  proof (intro allI impI notI)
    fix k j assume "j < n" "ids (n + k) = ids j"
    with injD[OF uniq, of "n + k" j] show False by simp
  qed
  from run r each d fresh show ?thesis
    by (auto simp: updateAllApiOperations_def)
qed

theorem updateAllApiOperations_appends_fresh_witness:
  "updateAllApiOperations sampleIds sampleOperations 4 policyC ''request'' =
     (Inr [petsGet\<lparr>operationPolicies :=
             Some [(''request'', [policyA, policyB, policyC\<lparr>uuid := Some ''id-iiii''\<rparr>]),
                   (''response'', [policyC]), (''fault'', [])]\<rparr>,
           petsPost\<lparr>operationPolicies :=
             Some [(''request'', [policyD, policyC\<lparr>uuid := Some ''id-iiiii''\<rparr>]),
                   (''response'', []), (''fault'', [])]\<rparr>], 6)"
proof -
  have flows: "\<forall>op \<in> set sampleOperations. \<exists>l. flowPolicies op ''request'' = Inr l"
    by (simp add: sample_defs op_defs)
  from updateAllApiOperations_appends_fresh [OF inj_sampleIds flows, of 4 policyC]
  show ?thesis
    by (simp add: updateAllApiOperations_def uuidv4_def sample_defs op_defs sampleIds_def
        numeral_eq_Suc)
qed

subsection \<open>The uuids of the state\<close>

lemma in_attachedPolicies_iff:
  "p \<in> set (attachedPolicies ops) \<longleftrightarrow>
     (\<exists>op \<in> set ops. \<exists>l \<in> set (flowArraysOf op). p \<in> set l)"
  by (auto simp: attachedPolicies_def flowArrays_def)

lemma values_update_subset:
  "set (map snd (AList.update k v al)) \<subseteq> insert v (set (map snd al))"
  by (induction al) auto

lemma flowArraysOf_setFlowPolicies:
  "set (flowArraysOf (setFlowPolicies op flow l')) \<subseteq> insert l' (set (flowArraysOf op))"
  using values_update_subset[of flow l']
  by (auto simp: flowArraysOf_def setFlowPolicies_def split: option.splits)

lemma flowPolicies_in_flowArraysOf:
  assumes "flowPolicies op flow = Inr l"
  shows "l \<in> set (flowArraysOf op)"
proof -
  from flowPolicies_InrD[OF assms] obtain pols
    where "operationPolicies op = Some pols" "map_of pols flow = Some l" by blast
  then show ?thesis
    by (auto simp: flowArraysOf_def dest!: map_of_SomeD intro!: image_eqI[of _ snd "(flow, l)"])
qed

lemma generatedUuids_flow:
  assumes "generatedUuids ids n ops" and "i < length ops" and "flowPolicies (ops ! i) flow = Inr l"
  shows "\<forall>p \<in> set l. \<exists>k < n. uuid p = Some (ids k)"
proof
  fix p assume "p \<in> set l"
  with flowPolicies_in_flowArraysOf[OF assms(3)] assms(2)
  have "p \<in> set (attachedPolicies ops)"
    by (auto simp: in_attachedPolicies_iff intro!: bexI[of _ "ops ! i"])
  with assms(1) show "\<exists>k < n. uuid p = Some (ids k)"
    by (simp add: generatedUuids_def)
qed

lemma generatedUuids_mono:
  assumes "generatedUuids ids n ops" and "n \<le> n'"
  shows "generatedUuids ids n' ops"
  unfolding generatedUuids_def
proof
  fix p assume "p \<in> set (attachedPolicies ops)"
  with assms(1) obtain k where "k < n" "uuid p = Some (ids k)"
    by (auto simp: generatedUuids_def)
  with assms(2) show "\<exists>k < n'. uuid p = Some (ids k)"
    by (intro exI[of _ k]) simp
qed

lemma generatedUuids_update:
  assumes inv: "generatedUuids ids n ops"
    and i: "i < length ops"
    and l': "\<forall>p \<in> set l'. \<exists>k < n. uuid p = Some (ids k)"
  shows "generatedUuids ids n (ops[i := setFlowPolicies (ops ! i) flow l'])"
  unfolding generatedUuids_def
proof
  fix p assume "p \<in> set (attachedPolicies (ops[i := setFlowPolicies (ops ! i) flow l']))"
  then obtain op l where op: "op \<in> set (ops[i := setFlowPolicies (ops ! i) flow l'])"
    and l: "l \<in> set (flowArraysOf op)" and p: "p \<in> set l"
    by (auto simp: in_attachedPolicies_iff)
  from op have "op = setFlowPolicies (ops ! i) flow l' \<or> op \<in> set ops"
    using set_update_subset_insert[of ops i] by auto
  then show "\<exists>k < n. uuid p = Some (ids k)"
  proof
    assume "op \<in> set ops"
    with l p have "p \<in> set (attachedPolicies ops)"
      by (auto simp: in_attachedPolicies_iff)
    with inv show ?thesis by (simp add: generatedUuids_def)
  next
    assume "op = setFlowPolicies (ops ! i) flow l'"
    with l flowArraysOf_setFlowPolicies[of "ops ! i" flow l']
    have "l = l' \<or> l \<in> set (flowArraysOf (ops ! i))" by auto
    then show ?thesis
    proof
      assume "l = l'"
      with p l' show ?thesis by simp
    next
      assume "l \<in> set (flowArraysOf (ops ! i))"
      with p i have "p \<in> set (attachedPolicies ops)"
        by (auto simp: in_attachedPolicies_iff intro!: bexI[of _ "ops ! i"])
      with inv show ?thesis by (simp add: generatedUuids_def)
    qed
  qed
qed

lemma updateApiOperations_generated:
  assumes inv: "generatedUuids ids n ops"
    and run: "updateApiOperations ids cc ops n upd t v flow = (Inr ops', n')"
  shows "generatedUuids ids n' ops'"
proof -
  from run obtain i where loc: "operationInAction cc ops t v = Some i"
    by (auto simp: updateApiOperations_def split: option.splits)
  then have i: "i < length ops" by (rule operationInAction_SomeD)
  from run loc obtain l where fl: "flowPolicies (ops ! i) flow = Inr l"
    by (auto simp: updateApiOperations_def split: sum.splits)
  note old = generatedUuids_flow[OF inv i fl]
  show ?thesis
  proof (cases "find_at (samePolicy upd) l")
    case None
    from run have r: "ops' = ops[i := setFlowPolicies (ops ! i) flow (l @ [upd\<lparr>uuid := Some (ids n)\<rparr>])]"
      "n' = Suc n"
      by (simp_all add: updateApiOperations_add[OF loc fl None])
    have "\<forall>p \<in> set (l @ [upd\<lparr>uuid := Some (ids n)\<rparr>]). \<exists>k < Suc n. uuid p = Some (ids k)"
      using old by (auto intro: less_SucI)
    with generatedUuids_mono[OF inv, of "Suc n"] i r show ?thesis
      by (simp add: generatedUuids_update)
  next
    case (Some j)
    from run have r: "ops' = ops[i := setFlowPolicies (ops ! i) flow
                         (l[j := (l ! j)\<lparr>parameters := parameters upd\<rparr>])]" "n' = n"
      by (simp_all add: updateApiOperations_edit[OF loc fl Some])
    from Some have j: "j < length l" by (simp add: find_at_Some_iff)
    have "\<forall>p \<in> set (l[j := (l ! j)\<lparr>parameters := parameters upd\<rparr>]). \<exists>k < n. uuid p = Some (ids k)"
    proof
      fix p assume "p \<in> set (l[j := (l ! j)\<lparr>parameters := parameters upd\<rparr>])"
      then have "p = (l ! j)\<lparr>parameters := parameters upd\<rparr> \<or> p \<in> set l"
        using set_update_subset_insert[of l j] by auto
      with old j show "\<exists>k < n. uuid p = Some (ids k)" by auto
    qed
    with inv i r show ?thesis by (simp add: generatedUuids_update)
  qed
qed

lemma updateAllApiOperations_generated:
  assumes inv: "generatedUuids ids n ops"
    and run: "updateAllApiOperations ids ops n upd flow = (Inr ops', n')"
  shows "generatedUuids ids n' ops'"
  unfolding generatedUuids_def
proof
  from run have "pushToAll ids upd flow ops n = (Inr ops', n')"
    by (simp add: updateAllApiOperations_def)
  note r = pushToAll_Inr[OF this]
  fix p assume "p \<in> set (attachedPolicies ops')"
  then obtain op' l' where op': "op' \<in> set ops'" and l': "l' \<in> set (flowArraysOf op')"
    and p: "p \<in> set l'"
    by (auto simp: in_attachedPolicies_iff)
  from op' r obtain k where k: "k < length ops" and "op' = ops' ! k"
    by (auto simp: in_set_conv_nth)
  with r obtain l where l: "flowPolicies (ops ! k) flow = Inr l"
    and o: "op' = setFlowPolicies (ops ! k) flow (l @ [upd\<lparr>uuid := Some (ids (n + k))\<rparr>])"
    by auto
  from l' o flowArraysOf_setFlowPolicies[of "ops ! k" flow]
  have "l' = l @ [upd\<lparr>uuid := Some (ids (n + k))\<rparr>] \<or> l' \<in> set (flowArraysOf (ops ! k))"
    by auto
  with p flowPolicies_in_flowArraysOf[OF l]
  have "uuid p = Some (ids (n + k)) \<or> (\<exists>l \<in> set (flowArraysOf (ops ! k)). p \<in> set l)"
    by auto
  then show "\<exists>j < n'. uuid p = Some (ids j)"
  proof
    assume "uuid p = Some (ids (n + k))"
    with k r show ?thesis by (intro exI[of _ "n + k"]) simp
  next
    assume "\<exists>l \<in> set (flowArraysOf (ops ! k)). p \<in> set l"
    with k have "p \<in> set (attachedPolicies ops)"
      by (auto simp: in_attachedPolicies_iff intro!: bexI[of _ "ops ! k"])
    with inv obtain j where "j < n" "uuid p = Some (ids j)"
      by (auto simp: generatedUuids_def)
    with r show ?thesis by (intro exI[of _ j]) simp
  qed
qed

lemma pushToAll_ignores_uuid:
  "pushToAll ids (upd\<lparr>uuid := x\<rparr>) flow ops n = pushToAll ids upd flow ops n"
  by (induction ops arbitrary: n) (simp_all add: uuidv4_def split: sum.splits prod.splits)

text \<open>
  Claim C10. The policy that \<open>updateApiOperations\<close> appends (no entry of the flow's
  array has the incoming \<open>policyId\<close> and \<open>uuid\<close>) is stored under the identifier
  just drawn, whatever \<open>uuid\<close> the caller's object carries. The policy that
  \<open>updateAllApiOperations\<close> appends to the flow's array of the \<open>k\<close>-th operation is
  stored under the identifier drawn for that operation, the \<open>k\<close>-th one drawn by the
  call; the handler succeeds where every operation has the flow's array, and its result
  does not depend on the caller's \<open>uuid\<close>. Both handlers keep the invariant that every
  uuid of the state is an identifier the generator has handed out.
\<close>

theorem appended_uuid_is_generated:
  assumes inv: "generatedUuids ids n ops"
  shows "(\<forall>i l. operationInAction cc ops t v = Some i \<and> flowPolicies (ops ! i) flow = Inr l \<and>
                (\<forall>p \<in> set l. \<not> samePolicy upd p) \<longrightarrow>
            (\<exists>ops' l'. updateApiOperations ids cc ops n upd t v flow = (Inr ops', Suc n) \<and>
                      flowPolicies (ops' ! i) flow = Inr l' \<and>
                      l' = l @ [upd\<lparr>uuid := Some (ids n)\<rparr>] \<and>
                      map uuid l' = map uuid l @ [Some (ids n)])) \<and>
         (\<forall>ops' n'. updateApiOperations ids cc ops n upd t v flow = (Inr ops', n') \<longrightarrow>
            generatedUuids ids n' ops') \<and>
         ((\<forall>op \<in> set ops. \<exists>l. flowPolicies op flow = Inr l) \<longrightarrow>
            (\<exists>ops'. updateAllApiOperations ids ops n upd flow = (Inr ops', n + length ops))) \<and>
         (\<forall>ops' n'. updateAllApiOperations ids ops n upd flow = (Inr ops', n') \<longrightarrow>
            n' = n + length ops \<and> length ops' = length ops \<and>
            (\<forall>k < length ops. \<exists>l l'.
               flowPolicies (ops ! k) flow = Inr l \<and>
               flowPolicies (ops' ! k) flow = Inr l' \<and>
               l' = l @ [upd\<lparr>uuid := Some (ids (n + k))\<rparr>] \<and>
               map uuid l' = map uuid l @ [Some (ids (n + k))])) \<and>
         (\<forall>x. updateAllApiOperations ids ops n (upd\<lparr>uuid := x\<rparr>) flow =
              updateAllApiOperations ids ops n upd flow) \<and>
         (\<forall>ops' n'. updateAllApiOperations ids ops n upd flow = (Inr ops', n') \<longrightarrow>
            generatedUuids ids n' ops')"
proof -
  have add: "\<exists>ops' l'. updateApiOperations ids cc ops n upd t v flow = (Inr ops', Suc n) \<and>
                      flowPolicies (ops' ! i) flow = Inr l' \<and>
                      l' = l @ [upd\<lparr>uuid := Some (ids n)\<rparr>] \<and>
                      map uuid l' = map uuid l @ [Some (ids n)]"
    if loc: "operationInAction cc ops t v = Some i" and fl: "flowPolicies (ops ! i) flow = Inr l"
      and no: "\<forall>p \<in> set l. \<not> samePolicy upd p" for i l
  proof -
    from no have "find_at (samePolicy upd) l = None" by (simp add: find_at_None_iff)
    note r = updateApiOperations_add[OF loc fl this, of ids n]
    from loc have "i < length ops" by (rule operationInAction_SomeD)
    with fl have "flowPolicies (ops[i := setFlowPolicies (ops ! i) flow
                         (l @ [upd\<lparr>uuid := Some (ids n)\<rparr>])] ! i) flow =
        Inr (l @ [upd\<lparr>uuid := Some (ids n)\<rparr>])"
      by (simp add: flowPolicies_setFlowPolicies_same)
    with r show ?thesis by simp
  qed
  have all_total: "\<exists>ops'. updateAllApiOperations ids ops n upd flow = (Inr ops', n + length ops)"
    if "\<forall>op \<in> set ops. \<exists>l. flowPolicies op flow = Inr l"
    using pushToAll_total[OF that] by (simp add: updateAllApiOperations_def)
  have all_stored: "n' = n + length ops \<and> length ops' = length ops \<and>
            (\<forall>k < length ops. \<exists>l l'.
               flowPolicies (ops ! k) flow = Inr l \<and>
               flowPolicies (ops' ! k) flow = Inr l' \<and>
               l' = l @ [upd\<lparr>uuid := Some (ids (n + k))\<rparr>] \<and>
               map uuid l' = map uuid l @ [Some (ids (n + k))])"
    if run: "updateAllApiOperations ids ops n upd flow = (Inr ops', n')" for ops' n'
  proof -
    from run have "pushToAll ids upd flow ops n = (Inr ops', n')"
      by (simp add: updateAllApiOperations_def)
    note r = pushToAll_Inr[OF this]
    have "\<exists>l l'. flowPolicies (ops ! k) flow = Inr l \<and>
               flowPolicies (ops' ! k) flow = Inr l' \<and>
               l' = l @ [upd\<lparr>uuid := Some (ids (n + k))\<rparr>] \<and>
               map uuid l' = map uuid l @ [Some (ids (n + k))]"
      if k: "k < length ops" for k
    proof -
      from r k obtain l where l: "flowPolicies (ops ! k) flow = Inr l"
        and o: "ops' ! k = setFlowPolicies (ops ! k) flow (l @ [upd\<lparr>uuid := Some (ids (n + k))\<rparr>])"
        by blast
      from l o have "flowPolicies (ops' ! k) flow = Inr (l @ [upd\<lparr>uuid := Some (ids (n + k))\<rparr>])"
        by (simp add: flowPolicies_setFlowPolicies_same)
      with l show ?thesis by simp
    qed
    with r show ?thesis by blast
  qed
  have ignore: "updateAllApiOperations ids ops n (upd\<lparr>uuid := x\<rparr>) flow =
              updateAllApiOperations ids ops n upd flow" for x
    by (simp add: updateAllApiOperations_def pushToAll_ignores_uuid)
  from add all_total all_stored ignore
    updateApiOperations_generated[OF inv] updateAllApiOperations_generated[OF inv]
  show ?thesis by (intro conjI allI impI) blast+
qed

theorem appended_uuid_is_generated_witness:
  "generatedUuids sampleIds 1 generatedOperations \<and>
   uuid policyB = Some ''U2'' \<and>
   updateApiOperations sampleIds False generatedOperations 1 policyB ''/pets'' ''get'' ''request'' =
     (Inr [\<lparr>target = ''/pets'', verb = ''GET'',
            operationPolicies =
              Some [(''request'', [policyA\<lparr>uuid := Some ''id-''\<rparr>,
                                   policyB\<lparr>uuid := Some ''id-i''\<rparr>])]\<rparr>], 2) \<and>
   updateAllApiOperations sampleIds generatedOperations 1 policyB ''request'' =
     (Inr [\<lparr>target = ''/pets'', verb = ''GET'',
            operationPolicies =
              Some [(''request'', [policyA\<lparr>uuid := Some ''id-''\<rparr>,
                                   policyB\<lparr>uuid := Some ''id-i''\<rparr>])]\<rparr>], 2) \<and>
   generatedUuids sampleIds 2
     [\<lparr>target = ''/pets'', verb = ''GET'',
       operationPolicies =
         Some [(''request'', [policyA\<lparr>uuid := Some ''id-''\<rparr>,
                              policyB\<lparr>uuid := Some ''id-i''\<rparr>])]\<rparr>]"
proof -
  have inv: "generatedUuids sampleIds 1 generatedOperations"
    by (simp add: generatedUuids_def generatedOperations_def attached_defs sampleIds_def)
  have one: "updateApiOperations sampleIds False generatedOperations 1 policyB
               ''/pets'' ''get'' ''request'' =
     (Inr [\<lparr>target = ''/pets'', verb = ''GET'',
            operationPolicies =
              Some [(''request'', [policyA\<lparr>uuid := Some ''id-''\<rparr>,
                                   policyB\<lparr>uuid := Some ''id-i''\<rparr>])]\<rparr>], 2)"
    by (simp add: updateApiOperations_def generatedOperations_def sample_defs op_defs
        samePolicy_def uuidv4_def sampleIds_def)
  have all: "updateAllApiOperations sampleIds generatedOperations 1 policyB ''request'' =
     (Inr [\<lparr>target = ''/pets'', verb = ''GET'',
            operationPolicies =
              Some [(''request'', [policyA\<lparr>uuid := Some ''id-''\<rparr>,
                                   policyB\<lparr>uuid := Some ''id-i''\<rparr>])]\<rparr>], 2)"
    by (simp add: updateAllApiOperations_def generatedOperations_def sample_defs op_defs
        uuidv4_def sampleIds_def)
  from appended_uuid_is_generated [OF inv, of False "''/pets''" "''get''" "''request''" policyB]
    inv one all
  show ?thesis by (simp add: policyB_def)
qed

text \<open>The initial state and the other handlers.\<close>

lemma assignUuids_generated:
  assumes "assignUuids ids l n = (l', n')"
  shows "n \<le> n' \<and> (\<forall>p \<in> set l'. \<exists>k < n'. uuid p = Some (ids k))"
  using assms
proof (induction l arbitrary: n l' n')
  case Nil
  then show ?case by simp
next
  case (Cons p ps)
  from Cons.prems obtain ps' where
    rest: "assignUuids ids ps (Suc n) = (ps', n')" and l': "l' = p\<lparr>uuid := Some (ids n)\<rparr> # ps'"
    by (auto simp: uuidv4_def split: prod.splits)
  from Cons.IH[OF rest] have ih: "Suc n \<le> n'" "\<forall>p \<in> set ps'. \<exists>k < n'. uuid p = Some (ids k)"
    by simp_all
  from ih(1) have "\<exists>k < n'. Some (ids n) = Some (ids k)" by (intro exI[of _ n]) simp
  with ih l' show ?case by simp
qed

lemma generated_le:
  fixes ids :: "nat \<Rightarrow> string"
  assumes "\<forall>p \<in> set l. \<exists>k < n. uuid p = Some (ids k)" and "n \<le> n'"
  shows "\<forall>p \<in> set l. \<exists>k < n'. uuid p = Some (ids k)"
proof
  fix p assume "p \<in> set l"
  with assms(1) obtain k where "k < n" "uuid p = Some (ids k)" by blast
  with assms(2) show "\<exists>k < n'. uuid p = Some (ids k)" by (intro exI[of _ k]) simp
qed

lemma assignFlows_generated:
  assumes "assignFlows ids pols n = (pols', n')"
  shows "n \<le> n' \<and> (\<forall>l \<in> set (map snd pols'). \<forall>p \<in> set l. \<exists>k < n'. uuid p = Some (ids k))"
  using assms
proof (induction pols arbitrary: n pols' n')
  case Nil
  then show ?case by simp
next
  case (Cons e pols)
  obtain flow l where e: "e = (flow, l)" by (cases e)
  from Cons.prems e obtain l0 n0 rest' where
    first: "assignUuids ids l n = (l0, n0)"
    and rest: "assignFlows ids pols n0 = (rest', n')"
    and pols': "pols' = (flow, l0) # rest'"
    by (auto split: prod.splits)
  note a = assignUuids_generated[OF first]
  note ih = Cons.IH[OF rest]
  have "\<forall>p \<in> set l0. \<exists>k < n'. uuid p = Some (ids k)"
  proof (rule generated_le[where n = n0])
    show "\<forall>p \<in> set l0. \<exists>k < n0. uuid p = Some (ids k)" using a by simp
    show "n0 \<le> n'" using ih by simp
  qed
  with a ih pols' show ?case by simp
qed

lemma getInitState_attached:
  assumes "getInitState ids ops n = (ops', n')"
  shows "n \<le> n' \<and> (\<forall>p \<in> set (attachedPolicies ops'). \<exists>k < n'. uuid p = Some (ids k))"
  using assms
proof (induction ops arbitrary: n ops' n')
  case Nil
  then show ?case by (simp add: attached_defs)
next
  case (Cons operation ops)
  show ?case
  proof (cases "operationPolicies operation")
    case None
    with Cons.prems obtain rest' where
      rest: "getInitState ids ops n = (rest', n')" and ops': "ops' = operation # rest'"
      by (auto split: prod.splits)
    from Cons.IH[OF rest] ops' None show ?thesis
      by (simp add: attached_defs)
  next
    case (Some pols)
    with Cons.prems obtain pols0 n0 rest' where
      first: "assignFlows ids pols n = (pols0, n0)"
      and rest: "getInitState ids ops n0 = (rest', n')"
      and ops': "ops' = operation\<lparr>operationPolicies := Some pols0\<rparr> # rest'"
      by (auto split: prod.splits)
    note a = assignFlows_generated[OF first]
    note ih = Cons.IH[OF rest]
    have each: "\<forall>p \<in> set l. \<exists>k < n'. uuid p = Some (ids k)" if "l \<in> set (map snd pols0)" for l
    proof (rule generated_le[where n = n0])
      show "\<forall>p \<in> set l. \<exists>k < n0. uuid p = Some (ids k)" using a that by blast
      show "n0 \<le> n'" using ih by simp
    qed
    have new: "\<forall>p \<in> set (concat (map snd pols0)). \<exists>k < n'. uuid p = Some (ids k)"
    proof
      fix p assume "p \<in> set (concat (map snd pols0))"
      then obtain l where "l \<in> set (map snd pols0)" "p \<in> set l" by auto
      with each show "\<exists>k < n'. uuid p = Some (ids k)" by blast
    qed
    have "attachedPolicies ops' = concat (map snd pols0) @ attachedPolicies rest'"
      using ops' by (simp add: attached_defs)
    moreover from a ih have "n \<le> n'" by simp
    ultimately show ?thesis using new ih by auto
  qed
qed

lemma getInitState_generated:
  assumes "getInitState ids ops n = (ops', n')"
  shows "generatedUuids ids n' ops'"
  using getInitState_attached[OF assms] by (simp add: generatedUuids_def)

lemma set_splice_arr: "set (splice_arr start deleteCount xs) \<subseteq> set xs"
  by (auto simp: splice_arr_def Let_def dest: in_set_takeD in_set_dropD)

lemma set_arrayMove: "set (arrayMove xs oldIndex newIndex) \<subseteq> set xs"
  by (auto simp: arrayMove_def Let_def dest!: in_set_takeD in_set_dropD)

lemma deleteApiOperation_generated:
  assumes inv: "generatedUuids ids n ops"
    and run: "deleteApiOperation ops u t v flow = Inr ops'"
  shows "generatedUuids ids n ops'"
proof -
  from run obtain i where loc: "operationInAction False ops t v = Some i"
    by (auto simp: deleteApiOperation_def split: option.splits)
  then have i: "i < length ops" by (rule operationInAction_SomeD)
  from run loc obtain l where fl: "flowPolicies (ops ! i) flow = Inr l"
    by (auto simp: deleteApiOperation_def split: sum.splits)
  from run loc fl have r: "ops' = ops[i := setFlowPolicies (ops ! i) flow
                          (splice_arr (indexOf (Some u) (map uuid l)) 1 l)]"
    by (simp add: deleteApiOperation_def)
  from generatedUuids_flow[OF inv i fl] set_splice_arr[of "indexOf (Some u) (map uuid l)" 1 l]
  have "\<forall>p \<in> set (splice_arr (indexOf (Some u) (map uuid l)) 1 l). \<exists>k < n. uuid p = Some (ids k)"
    by blast
  with inv i show ?thesis unfolding r by (rule generatedUuids_update)
qed

lemma rearrangeApiOperations_generated:
  assumes inv: "generatedUuids ids n ops"
    and run: "rearrangeApiOperations ops oldIndex newIndex t v flow = Inr ops'"
  shows "generatedUuids ids n ops'"
proof -
  from run obtain i where loc: "operationInAction False ops t v = Some i"
    by (auto simp: rearrangeApiOperations_def split: option.splits)
  then have i: "i < length ops" by (rule operationInAction_SomeD)
  from run loc obtain l where fl: "flowPolicies (ops ! i) flow = Inr l"
    by (auto simp: rearrangeApiOperations_def split: sum.splits)
  from run loc fl have r: "ops' = ops[i := setFlowPolicies (ops ! i) flow
                          (arrayMove l oldIndex newIndex)]"
    by (simp add: rearrangeApiOperations_def)
  from generatedUuids_flow[OF inv i fl] set_arrayMove[of l oldIndex newIndex]
  have "\<forall>p \<in> set (arrayMove l oldIndex newIndex). \<exists>k < n. uuid p = Some (ids k)"
    by blast
  with inv i show ?thesis unfolding r by (rule generatedUuids_update)
qed

text \<open>
  Claim C4. \<open>saveApi\<close> reads the state \<open>apiOperations\<close>, and every uuid of that
  state is an identifier drawn from \<open>uuidv4\<close>: \<open>getInitState\<close> gives one to every
  attached policy and every handler keeps it so (the lemmas above). Where the
  generator's identifiers are non-empty strings, \<open>saveApi\<close> with
  \<open>isGatewayChanged = false\<close> hands over the attached policies of the state with their
  uuid removed: no attached policy of the payload has a uuid.
\<close>

theorem saveApi_strips_generated_uuids:
  assumes nonempty: "\<forall>k. ids k \<noteq> []"
    and inv: "generatedUuids ids n ops"
  shows "attachedPolicies (operations (saveApi cc False ops)) =
           map (\<lambda>p. p\<lparr>uuid := None\<rparr>) (attachedPolicies ops) \<and>
         (\<forall>p \<in> set (attachedPolicies (operations (saveApi cc False ops))). uuid p = None)"
proof -
  have "\<forall>p \<in> set (attachedPolicies ops). uuid p \<noteq> Some []"
  proof
    fix p assume "p \<in> set (attachedPolicies ops)"
    with inv obtain k where "uuid p = Some (ids k)"
      by (auto simp: generatedUuids_def)
    with nonempty show "uuid p \<noteq> Some []" by simp
  qed
  then show ?thesis by (rule saveApi_strips_nonempty_uuids)
qed

theorem saveApi_strips_generated_uuids_witness:
  "map uuid (attachedPolicies persistedOperations) = [None, None, None] \<and>
   snd (getInitState sampleIds persistedOperations 0) = 3 \<and>
   map uuid (attachedPolicies (fst (getInitState sampleIds persistedOperations 0))) =
     [Some ''id-'', Some ''id-i'', Some ''id-ii''] \<and>
   map uuid (attachedPolicies (operations (saveApi False False
       (fst (getInitState sampleIds persistedOperations 0))))) = [None, None, None]"
proof -
  have nonempty: "\<forall>k. sampleIds k \<noteq> []" by (simp add: sampleIds_def)
  have init: "getInitState sampleIds persistedOperations 0 =
      (fst (getInitState sampleIds persistedOperations 0), 3)"
    by (simp add: persistedOperations_def uuidv4_def)
  from saveApi_strips_generated_uuids [OF nonempty getInitState_generated [OF init], of False]
  show ?thesis
    by (simp add: persistedOperations_def uuidv4_def sampleIds_def saveApi_defs sample_defs)
qed

subsection \<open>rearrangeApiOperations\<close>

lemma arrayMove_length:
  assumes "oldIndex < length l" and "newIndex < length l"
  shows "length (arrayMove l oldIndex newIndex) = length l"
  using assms by (simp add: arrayMove_def Let_def)

lemma insert_at_nth:
  assumes "length xs = k"
  shows "(xs @ a # ys) ! k = a"
  using assms by (simp add: nth_append)

lemma insert_at_others:
  assumes "length xs = k"
  shows "take k (xs @ a # ys) @ drop (Suc k) (xs @ a # ys) = xs @ ys"
  using assms by simp

lemma length_take_removed:
  assumes "oldIndex < length l" and "newIndex < length l"
  shows "length (take newIndex (take oldIndex l @ drop (Suc oldIndex) l)) = newIndex"
  using assms by simp

lemma arrayMove_nth_new:
  assumes "oldIndex < length l" and "newIndex < length l"
  shows "arrayMove l oldIndex newIndex ! newIndex = l ! oldIndex"
  using assms insert_at_nth[OF length_take_removed[OF assms]]
  by (simp only: arrayMove_def Let_def if_True simp_thms)

lemma arrayMove_others:
  assumes "oldIndex < length l" and "newIndex < length l"
  shows "take newIndex (arrayMove l oldIndex newIndex) @
         drop (Suc newIndex) (arrayMove l oldIndex newIndex) =
         take oldIndex l @ drop (Suc oldIndex) l"
  using assms insert_at_others[OF length_take_removed[OF assms]]
  by (simp only: arrayMove_def Let_def if_True simp_thms append_take_drop_id)

text \<open>
  Claim C8. Where the operation is located, has the flow's array and both indices are
  within it, \<open>rearrangeApiOperations\<close> succeeds and changes that array only. The new
  array has the old length, holds at \<open>newIndex\<close> the element that was at
  \<open>oldIndex\<close>, and without that element it is the old array without it: the other
  elements keep their order and shift. On \<open>[A, B, C, D]\<close> the move of 0 to 2 gives
  \<open>[B, C, A, D]\<close>.
\<close>

theorem rearrangeApiOperations_moves:
  assumes loc: "operationInAction False ops t v = Some i"
    and fl: "flowPolicies (ops ! i) flow = Inr l"
    and old: "oldIndex < length l"
    and new: "newIndex < length l"
  shows "\<exists>ops' l'.
           rearrangeApiOperations ops oldIndex newIndex t v flow = Inr ops' \<and>
           onlyFlowChanged ops ops' i flow \<and>
           flowPolicies (ops' ! i) flow = Inr l' \<and>
           length l' = length l \<and>
           l' ! newIndex = l ! oldIndex \<and>
           take newIndex l' @ drop (Suc newIndex) l' = take oldIndex l @ drop (Suc oldIndex) l"
proof -
  let ?l' = "arrayMove l oldIndex newIndex"
  let ?ops' = "ops[i := setFlowPolicies (ops ! i) flow ?l']"
  from loc have i: "i < length ops" by (rule operationInAction_SomeD)
  have "rearrangeApiOperations ops oldIndex newIndex t v flow = Inr ?ops'"
    using loc fl by (simp add: rearrangeApiOperations_def)
  moreover have "onlyFlowChanged ops ?ops' i flow"
    using i by (rule onlyFlowChanged_update)
  moreover have "flowPolicies (?ops' ! i) flow = Inr ?l'"
    using i fl by (simp add: flowPolicies_setFlowPolicies_same)
  ultimately show ?thesis
    using arrayMove_length[OF old new] arrayMove_nth_new[OF old new] arrayMove_others[OF old new]
    by blast
qed

theorem rearrangeApiOperations_moves_witness:
  "rearrangeApiOperations [petsGet, ordersPut] 0 2 ''/orders'' ''put'' ''request'' =
     Inr [petsGet,
          ordersPut\<lparr>operationPolicies :=
            Some [(''request'', [policyB, policyC, policyA, policyD]),
                  (''response'', [policyB]), (''fault'', [])]\<rparr>]"
proof -
  have loc: "operationInAction False [petsGet, ordersPut] ''/orders'' ''put'' = Some 1"
    by (simp add: sample_defs op_defs)
  have fl: "flowPolicies ([petsGet, ordersPut] ! 1) ''request'' =
      Inr [policyA, policyB, policyC, policyD]"
    by (simp add: sample_defs op_defs)
  have old: "0 < length [policyA, policyB, policyC, policyD]" by simp
  have new: "2 < length [policyA, policyB, policyC, policyD]" by simp
  from rearrangeApiOperations_moves [OF loc fl old new]
  show ?thesis
    by (simp add: rearrangeApiOperations_def arrayMove_def sample_defs op_defs)
qed

subsection \<open>fetchPolicies\<close>

lemmas catalog_defs =
  rateLimitCommon_def rateLimitApi_def addHeader_def ccOnly_def fetchPolicies_def
  filteredList_def sortByDisplayName_def unionByPolicyDisplayName_def mergedList_def
  codeUnitCompare_def

lemma find_append_last:
  "List.find P (xs @ [x]) =
     (case List.find P xs of Some y \<Rightarrow> Some y | None \<Rightarrow> if P x then Some x else None)"
  by (induction xs) auto

lemma lastWithDisplayName_snoc:
  "lastWithDisplayName (xs @ [x]) name =
     (if displayName x = name then Some x else lastWithDisplayName xs name)"
  by (simp add: lastWithDisplayName_def)

lemma lastWithDisplayName_name:
  assumes "lastWithDisplayName merged name = Some p"
  shows "displayName p = name" and "p \<in> set merged"
proof -
  from assms obtain i where i: "i < length (rev merged)"
    and n: "displayName (rev merged ! i) = name" and p: "p = rev merged ! i"
    by (auto simp: lastWithDisplayName_def find_Some_iff)
  from n p show "displayName p = name" by simp
  from i have "rev merged ! i \<in> set (rev merged)" by (rule nth_mem)
  with p show "p \<in> set merged" by simp
qed

lemma map_of_reduce:
  "map_of (foldl (\<lambda>m obj. AList.update (displayName obj) obj m) [] merged) =
     lastWithDisplayName merged"
proof (induction merged rule: rev_induct)
  case Nil
  show ?case by (rule ext) (simp add: lastWithDisplayName_def)
next
  case (snoc x xs)
  show ?case
    by (rule ext) (simp add: update_conv' snoc.IH lastWithDisplayName_snoc)
qed

lemma distinct_reduce:
  "distinct (map fst (foldl (\<lambda>m obj. AList.update (displayName obj) obj m) [] merged))"
  by (induction merged rule: rev_induct) (simp_all add: distinct_update)

lemma in_reduce_iff:
  "(name, p) \<in> set (foldl (\<lambda>m obj. AList.update (displayName obj) obj m) [] merged) \<longleftrightarrow>
     lastWithDisplayName merged name = Some p"
  using map_of_eq_Some_iff[OF distinct_reduce, of merged name p]
  by (simp add: map_of_reduce)

lemma in_unionByPolicyDisplayName_iff:
  "p \<in> set (unionByPolicyDisplayName merged) \<longleftrightarrow>
     lastWithDisplayName merged (displayName p) = Some p"
proof
  assume "p \<in> set (unionByPolicyDisplayName merged)"
  then obtain name where "lastWithDisplayName merged name = Some p"
    by (auto simp: unionByPolicyDisplayName_def in_reduce_iff)
  with lastWithDisplayName_name(1)[OF this] show "lastWithDisplayName merged (displayName p) = Some p"
    by simp
next
  assume "lastWithDisplayName merged (displayName p) = Some p"
  then have "(displayName p, p) \<in> set (foldl (\<lambda>m obj. AList.update (displayName obj) obj m) [] merged)"
    by (simp add: in_reduce_iff)
  then show "p \<in> set (unionByPolicyDisplayName merged)"
    unfolding unionByPolicyDisplayName_def by (force intro: image_eqI[of _ snd])
qed

lemma distinct_unionByPolicyDisplayName:
  "distinct (map displayName (unionByPolicyDisplayName merged))"
proof -
  let ?m = "foldl (\<lambda>m obj. AList.update (displayName obj) obj m) [] merged"
  have "displayName (snd e) = fst e" if "e \<in> set ?m" for e
  proof -
    from that have "(fst e, snd e) \<in> set ?m" by simp
    then have "lastWithDisplayName merged (fst e) = Some (snd e)"
      by (simp only: in_reduce_iff)
    then show ?thesis by (rule lastWithDisplayName_name(1))
  qed
  then have "map (\<lambda>e. displayName (snd e)) ?m = map fst ?m"
    by (intro map_cong) simp_all
  then have "map displayName (map snd ?m) = map fst ?m"
    by (simp add: comp_def)
  with distinct_reduce[of merged] show ?thesis
    by (simp only: unionByPolicyDisplayName_def)
qed

lemma set_insertByDisplayName:
  "set (insertByDisplayName cmp a bs) = insert a (set bs)"
  by (induction bs) auto

lemma set_sortByDisplayName: "set (sortByDisplayName cmp xs) = set xs"
  by (induction xs) (simp_all add: sortByDisplayName_def set_insertByDisplayName)

lemma distinct_insertByDisplayName:
  "distinct (map displayName (insertByDisplayName cmp a bs)) \<longleftrightarrow>
     displayName a \<notin> displayName ` set bs \<and> distinct (map displayName bs)"
  by (induction bs) (auto simp: set_insertByDisplayName)

lemma distinct_sortByDisplayName:
  "distinct (map displayName (sortByDisplayName cmp xs)) \<longleftrightarrow> distinct (map displayName xs)"
  by (induction xs)
     (simp_all add: sortByDisplayName_def distinct_insertByDisplayName
        set_sortByDisplayName[unfolded sortByDisplayName_def])

lemma sorted_insertByDisplayName:
  assumes "consistentComparator cmp"
    and "sorted_wrt (\<lambda>a b. cmp (displayName a) (displayName b) \<le> 0) bs"
  shows "sorted_wrt (\<lambda>a b. cmp (displayName a) (displayName b) \<le> 0) (insertByDisplayName cmp a bs)"
  using assms(2)
proof (induction bs)
  case Nil
  then show ?case by simp
next
  case (Cons b bs)
  from assms(1) have total: "cmp x y \<le> 0 \<or> cmp y x \<le> 0" for x y
    unfolding consistentComparator_def by blast
  from assms(1) have trans: "cmp x y \<le> 0 \<Longrightarrow> cmp y z \<le> 0 \<Longrightarrow> cmp x z \<le> 0" for x y z
    unfolding consistentComparator_def by blast
  show ?case
  proof (cases "cmp (displayName a) (displayName b) \<le> 0")
    case True
    have "cmp (displayName a) (displayName y) \<le> 0" if "y \<in> set bs" for y
    proof -
      from Cons.prems that have "cmp (displayName b) (displayName y) \<le> 0" by simp
      with True show ?thesis by (rule trans)
    qed
    with True Cons.prems show ?thesis by simp
  next
    case False
    with total have "cmp (displayName b) (displayName a) \<le> 0" by blast
    with False Cons.IH Cons.prems show ?thesis by (simp add: set_insertByDisplayName)
  qed
qed

lemma sorted_sortByDisplayName:
  assumes "consistentComparator cmp"
  shows "sorted_wrt (\<lambda>a b. cmp (displayName a) (displayName b) \<le> 0) (sortByDisplayName cmp xs)"
  by (induction xs)
     (simp_all add: sortByDisplayName_def
        sorted_insertByDisplayName[OF assms, unfolded sortByDisplayName_def])

lemma lastWithDisplayName_append:
  "lastWithDisplayName (common @ api) name =
     (case lastWithDisplayName api name of Some p \<Rightarrow> Some p
      | None \<Rightarrow> lastWithDisplayName common name)"
proof (induction api rule: rev_induct)
  case Nil
  show ?case by (simp add: lastWithDisplayName_def)
next
  case (snoc x xs)
  have "lastWithDisplayName (common @ xs @ [x]) name =
        lastWithDisplayName ((common @ xs) @ [x]) name" by simp
  also have "\<dots> = (if displayName x = name then Some x
                      else lastWithDisplayName (common @ xs) name)"
    by (rule lastWithDisplayName_snoc)
  finally show ?case
    by (simp add: snoc.IH lastWithDisplayName_snoc)
qed

lemma consistent_codeUnitCompare: "consistentComparator codeUnitCompare"
  by (auto simp: consistentComparator_def codeUnitCompare_def)

text \<open>
  Claim C7. With a consistent locale comparison, the list \<open>fetchPolicies\<close> stores as
  \<open>policies\<close> holds exactly the entries that are the last one of their display name in
  the common list followed by the API-specific list and that support the gateway
  \<open>Synapse\<close>; its display names are pairwise distinct; it is sorted by display name
  under the comparison; and where an API-specific entry has the display name of an entry
  of the list, that entry is an API-specific one.
\<close>

theorem filteredList_is_catalog:
  assumes "consistentComparator localeCompare"
  shows "set (filteredList localeCompare api common) =
           {p. lastWithDisplayName (common @ api) (displayName p) = Some p \<and>
               ''Synapse'' \<in> set (supportedGateways p)} \<and>
         distinct (map displayName (filteredList localeCompare api common)) \<and>
         sorted_wrt (\<lambda>a b. localeCompare (displayName a) (displayName b) \<le> 0)
           (filteredList localeCompare api common) \<and>
         (\<forall>p \<in> set (filteredList localeCompare api common).
            \<forall>a \<in> set api. displayName a = displayName p \<longrightarrow> p \<in> set api)"
proof -
  have members: "set (filteredList localeCompare api common) =
           {p. lastWithDisplayName (common @ api) (displayName p) = Some p \<and>
               ''Synapse'' \<in> set (supportedGateways p)}"
    by (auto simp: filteredList_def set_sortByDisplayName in_unionByPolicyDisplayName_iff
        mergedList_def)
  have names: "distinct (map displayName (filteredList localeCompare api common))"
    unfolding filteredList_def
    by (intro distinct_map_filter)
       (simp add: distinct_sortByDisplayName distinct_unionByPolicyDisplayName)
  have order: "sorted_wrt (\<lambda>a b. localeCompare (displayName a) (displayName b) \<le> 0)
           (filteredList localeCompare api common)"
    unfolding filteredList_def
    by (intro sorted_wrt_filter sorted_sortByDisplayName assms)
  have shadow: "p \<in> set api"
    if p: "p \<in> set (filteredList localeCompare api common)"
      and a: "a \<in> set api" "displayName a = displayName p" for p a
  proof -
    from p members have last: "lastWithDisplayName (common @ api) (displayName p) = Some p"
      by simp
    from a have "lastWithDisplayName api (displayName p) \<noteq> None"
      by (auto simp: lastWithDisplayName_def find_None_iff)
    then obtain q where q: "lastWithDisplayName api (displayName p) = Some q" by blast
    with last have "q = p" by (simp add: lastWithDisplayName_append)
    with lastWithDisplayName_name(2)[OF q] show ?thesis by simp
  qed
  from shadow have "\<forall>p \<in> set (filteredList localeCompare api common).
            \<forall>a \<in> set api. displayName a = displayName p \<longrightarrow> p \<in> set api"
    by blast
  with members names order show ?thesis by (intro conjI)
qed

theorem filteredList_is_catalog_witness:
  "filteredList codeUnitCompare [rateLimitApi] [rateLimitCommon, ccOnly, addHeader] =
     [addHeader, rateLimitApi] \<and>
   lastWithDisplayName ([rateLimitCommon, ccOnly, addHeader] @ [rateLimitApi]) ''Rate Limit'' =
     Some rateLimitApi"
  using filteredList_is_catalog [OF consistent_codeUnitCompare,
      of "[rateLimitApi]" "[rateLimitCommon, ccOnly, addHeader]"]
  by (simp add: catalog_defs lastWithDisplayName_def less_char_def)

text \<open>
  Claim C6, as amended. The list \<open>fetchPolicies\<close> stores as \<open>allPolicies\<close>, used to
  look a policy up by its id, is the common list followed by the API-specific list with
  every entry kept: it is not deduplicated by display name. The list it stores as
  \<open>policies\<close> is the deduplicated list of \<open>allPolicies\<close>, sorted and filtered: its
  entries are entries of \<open>allPolicies\<close>, have pairwise distinct display names, support
  the gateway \<open>Synapse\<close>, and are sorted by display name where the locale comparison is
  consistent.
\<close>

theorem fetchPolicies_artifacts:
  "allPolicies (fetchPolicies localeCompare api common) = common @ api \<and>
   policies (fetchPolicies localeCompare api common) =
     filter (\<lambda>policy. ''Synapse'' \<in> set (supportedGateways policy))
       (sortByDisplayName localeCompare
          (unionByPolicyDisplayName (allPolicies (fetchPolicies localeCompare api common)))) \<and>
   set (policies (fetchPolicies localeCompare api common)) \<subseteq>
     set (allPolicies (fetchPolicies localeCompare api common)) \<and>
   distinct (map displayName (policies (fetchPolicies localeCompare api common))) \<and>
   (\<forall>p \<in> set (policies (fetchPolicies localeCompare api common)).
      ''Synapse'' \<in> set (supportedGateways p)) \<and>
   (consistentComparator localeCompare \<longrightarrow>
      sorted_wrt (\<lambda>a b. localeCompare (displayName a) (displayName b) \<le> 0)
        (policies (fetchPolicies localeCompare api common)))"
proof -
  let ?ps = "policies (fetchPolicies localeCompare api common)"
  have all: "allPolicies (fetchPolicies localeCompare api common) = common @ api"
    by (simp add: fetchPolicies_def mergedList_def)
  have ps: "?ps =
     filter (\<lambda>policy. ''Synapse'' \<in> set (supportedGateways policy))
       (sortByDisplayName localeCompare
          (unionByPolicyDisplayName (allPolicies (fetchPolicies localeCompare api common))))"
    by (simp add: fetchPolicies_def filteredList_def)
  have sub: "set ?ps \<subseteq> set (allPolicies (fetchPolicies localeCompare api common))"
  proof
    fix p assume "p \<in> set ?ps"
    then have "lastWithDisplayName (common @ api) (displayName p) = Some p"
      by (simp add: ps all set_sortByDisplayName in_unionByPolicyDisplayName_iff)
    from lastWithDisplayName_name(2)[OF this] all
    show "p \<in> set (allPolicies (fetchPolicies localeCompare api common))" by simp
  qed
  have names: "distinct (map displayName ?ps)"
    unfolding ps
    by (intro distinct_map_filter)
       (simp add: distinct_sortByDisplayName distinct_unionByPolicyDisplayName)
  have gw: "\<forall>p \<in> set ?ps. ''Synapse'' \<in> set (supportedGateways p)"
    by (simp add: ps)
  have order: "sorted_wrt (\<lambda>a b. localeCompare (displayName a) (displayName b) \<le> 0) ?ps"
    if "consistentComparator localeCompare"
    unfolding ps by (intro sorted_wrt_filter sorted_sortByDisplayName that)
  from all ps sub names gw order show ?thesis by (intro conjI impI)
qed

theorem fetchPolicies_artifacts_witness:
  "fetchPolicies codeUnitCompare [rateLimitApi] [rateLimitCommon, ccOnly, addHeader] =
     \<lparr>allPolicies = [rateLimitCommon, ccOnly, addHeader, rateLimitApi],
      policies = [addHeader, rateLimitApi]\<rparr>"
  using fetchPolicies_artifacts [of codeUnitCompare "[rateLimitApi]"
      "[rateLimitCommon, ccOnly, addHeader]"]
  by (simp add: catalog_defs less_char_def)

theorem allPolicies_keeps_duplicate_names:
  "allPolicies (fetchPolicies codeUnitCompare [rateLimitApi] [rateLimitCommon]) =
     [rateLimitCommon, rateLimitApi] \<and>
   map displayName (allPolicies (fetchPolicies codeUnitCompare [rateLimitApi] [rateLimitCommon])) =
     [''Rate Limit'', ''Rate Limit''] \<and>
   unionByPolicyDisplayName (mergedList [rateLimitApi] [rateLimitCommon]) = [rateLimitApi]"
  by (simp add: catalog_defs)

end
